theory Spec2Isabelle
  imports Complex_Main "HOL-Library.Multiset"
begin

section \<open>Half-life regression model of the HLR sidecar (services/hlr-sidecar/main.py)\<close>

text \<open>
  The embedding follows the class \<open>HLRModel\<close> and the two clipping functions of
  \<^verbatim>\<open>main.py\<close>. What Python raises is a value of type \<open>error\<close>. Both dictionaries
  of the model are \<open>defaultdict\<close>s, whose item read stores the default under a missing
  key, and that store is part of the embedding.
\<close>

subsection \<open>Python floats\<close>

text \<open>
  A Python \<open>float\<close> is an IEEE 754 double: a finite number, an infinity or NaN. The
  result of a finite operation is the exact result rounded to the nearest double,
  ties to the even significand: 53 significant bits, the exponent of the unit in the
  last place not below \<open>-1074\<close> (gradual underflow, down to zero), and an infinity
  when the rounded magnitude exceeds the largest double \<open>sys.float_info.max\<close>.
  Signed zeros are not distinguished. The library functions \<open>pow\<close>, \<open>log\<close>, \<open>log2\<close> and
  \<open>sqrt\<close> are taken as correctly rounded, and a decimal literal of the program is the
  double nearest to it.
\<close>

datatype pyfloat = Fin real | PInf | NInf | NaN

definition FLOAT_MAX :: real where
  "FLOAT_MAX = (2 ^ 53 - 1) * 2 ^ 971"

text \<open>The exponent of the binade of \<open>x\<close> (that of the smallest normal doubles for
  every smaller \<open>x\<close>) and the distance of neighbouring doubles there.\<close>

definition binade :: "real \<Rightarrow> int" where
  "binade x = max \<lfloor>log 2 \<bar>x\<bar>\<rfloor> (- 1022)"

definition ulp :: "real \<Rightarrow> real" where
  "ulp x = 2 powr of_int (binade x - 52)"

text \<open>The nearest integer, a tie going to the even one.\<close>

definition round_half_even :: "real \<Rightarrow> int" where
  "round_half_even m =
     (if m - of_int \<lfloor>m\<rfloor> < 1 / 2 then \<lfloor>m\<rfloor>
      else if 1 / 2 < m - of_int \<lfloor>m\<rfloor> then \<lfloor>m\<rfloor> + 1
      else if even \<lfloor>m\<rfloor> then \<lfloor>m\<rfloor> else \<lfloor>m\<rfloor> + 1)"

definition round_magnitude :: "real \<Rightarrow> real" where
  "round_magnitude x = of_int (round_half_even (\<bar>x\<bar> / ulp x)) * ulp x"

definition round_double :: "real \<Rightarrow> pyfloat" where
  "round_double x =
     (if FLOAT_MAX < round_magnitude x then (if 0 < x then PInf else NInf)
      else Fin (sgn x * round_magnitude x))"

text \<open>The sign of a float that is not NaN, and the infinity of a given sign.\<close>

fun sign_of :: "pyfloat \<Rightarrow> real" where
  "sign_of (Fin r) = sgn r"
| "sign_of PInf = 1"
| "sign_of NInf = - 1"
| "sign_of NaN = 0"

definition signed_inf :: "real \<Rightarrow> pyfloat" where
  "signed_inf s = (if 0 < s then PInf else if s < 0 then NInf else NaN)"

text \<open>The finite values are those of the range of doubles: the multiples of the unit
  of their binade up to the largest double.\<close>

fun in_range :: "pyfloat \<Rightarrow> bool" where
  "in_range (Fin r) = (\<bar>r\<bar> \<le> FLOAT_MAX \<and> r / ulp r \<in> \<int>)"
| "in_range _ = True"

instantiation pyfloat :: "{uminus, plus, minus, times, inverse, ord}"
begin

fun uminus_pyfloat :: "pyfloat \<Rightarrow> pyfloat" where
  "uminus_pyfloat (Fin r) = Fin (- r)"
| "uminus_pyfloat PInf = NInf"
| "uminus_pyfloat NInf = PInf"
| "uminus_pyfloat NaN = NaN"

fun plus_pyfloat :: "pyfloat \<Rightarrow> pyfloat \<Rightarrow> pyfloat" where
  "plus_pyfloat (Fin a) (Fin b) = round_double (a + b)"
| "plus_pyfloat (Fin a) PInf = PInf"
| "plus_pyfloat (Fin a) NInf = NInf"
| "plus_pyfloat PInf (Fin b) = PInf"
| "plus_pyfloat NInf (Fin b) = NInf"
| "plus_pyfloat PInf PInf = PInf"
| "plus_pyfloat NInf NInf = NInf"
| "plus_pyfloat PInf NInf = NaN"
| "plus_pyfloat NInf PInf = NaN"
| "plus_pyfloat NaN b = NaN"
| "plus_pyfloat a NaN = NaN"

definition minus_pyfloat :: "pyfloat \<Rightarrow> pyfloat \<Rightarrow> pyfloat" where
  "minus_pyfloat a b = a + (- b)"

fun times_pyfloat :: "pyfloat \<Rightarrow> pyfloat \<Rightarrow> pyfloat" where
  "times_pyfloat (Fin a) (Fin b) = round_double (a * b)"
| "times_pyfloat NaN b = NaN"
| "times_pyfloat a NaN = NaN"
| "times_pyfloat a b = signed_inf (sign_of a * sign_of b)"

text \<open>IEEE division. Python raises before dividing by zero (see \<open>py_div\<close>), so the value
  given here for a zero divisor is never used by the program.\<close>

fun divide_pyfloat :: "pyfloat \<Rightarrow> pyfloat \<Rightarrow> pyfloat" where
  "divide_pyfloat (Fin a) (Fin b) = (if b = 0 then signed_inf (sgn a) else round_double (a / b))"
| "divide_pyfloat NaN b = NaN"
| "divide_pyfloat a NaN = NaN"
| "divide_pyfloat (Fin a) b = Fin 0"
| "divide_pyfloat a (Fin b) = signed_inf (sign_of a * (if b < 0 then - 1 else 1))"
| "divide_pyfloat a b = NaN"

definition inverse_pyfloat :: "pyfloat \<Rightarrow> pyfloat" where
  "inverse_pyfloat a = divide (Fin 1) a"

text \<open>The comparisons of floats: every comparison with NaN is false.\<close>

fun less_pyfloat :: "pyfloat \<Rightarrow> pyfloat \<Rightarrow> bool" where
  "less_pyfloat (Fin a) (Fin b) = (a < b)"
| "less_pyfloat NaN b = False"
| "less_pyfloat a NaN = False"
| "less_pyfloat a NInf = False"
| "less_pyfloat PInf b = False"
| "less_pyfloat a b = True"

definition less_eq_pyfloat :: "pyfloat \<Rightarrow> pyfloat \<Rightarrow> bool" where
  "less_eq_pyfloat a b = (a < b \<or> (a = b \<and> a \<noteq> NaN))"

instance ..

end

subsection \<open>Python operations that can raise\<close>

datatype error = OverflowError | ValueError | ZeroDivisionError | TypeError

text \<open>\<open>a / b\<close>: a zero divisor raises, whatever the dividend.\<close>

definition py_div :: "pyfloat \<Rightarrow> pyfloat \<Rightarrow> error + pyfloat" where
  "py_div a b = (if b = Fin 0 then Inl ZeroDivisionError else Inr (a / b))"

text \<open>
  \<open>v ** w\<close> on floats, by the cases of CPython's \<open>float_pow\<close>, in its order: a zero
  exponent; a NaN operand; an infinite exponent; an infinite base; a zero base (a
  negative power of zero raises \<open>ZeroDivisionError\<close>); a negative base (a fractional
  exponent gives a complex number, on which the float comparisons that this program
  applies to the result raise \<open>TypeError\<close>); a base of absolute value one; and the
  library's \<open>pow\<close>, whose overflow raises \<open>OverflowError\<close> and whose underflow is a
  subnormal double or zero.
\<close>

definition odd_integer :: "real \<Rightarrow> bool" where
  "odd_integer w = (w \<in> \<int> \<and> odd \<lfloor>w\<rfloor>)"

fun py_pow :: "pyfloat \<Rightarrow> pyfloat \<Rightarrow> error + pyfloat" where
  "py_pow v (Fin w) =
     (if w = 0 then Inr (Fin 1)
      else case v of
        NaN \<Rightarrow> Inr NaN
      | PInf \<Rightarrow> Inr (if 0 < w then PInf else Fin 0)
      | NInf \<Rightarrow> Inr (if 0 < w then (if odd_integer w then NInf else PInf) else Fin 0)
      | Fin a \<Rightarrow>
          if a = 0 then (if w < 0 then Inl ZeroDivisionError else Inr (Fin 0))
          else if a < 0 \<and> w \<notin> \<int> then Inl TypeError
          else if \<bar>a\<bar> = 1 then Inr (Fin (if a < 0 \<and> odd_integer w then - 1 else 1))
          else case round_double (\<bar>a\<bar> powr w) of
                 Fin r \<Rightarrow> Inr (Fin (if a < 0 \<and> odd_integer w then - r else r))
               | _ \<Rightarrow> Inl OverflowError)"
| "py_pow v NaN = (if v = Fin 1 then Inr (Fin 1) else Inr NaN)"
| "py_pow NaN w = Inr NaN"
| "py_pow v w =
     (if v = Fin 1 \<or> v = Fin (- 1) then Inr (Fin 1)
      else if (w = PInf) = (case v of Fin a \<Rightarrow> 1 < \<bar>a\<bar> | _ \<Rightarrow> True) then Inr PInf
      else Inr (Fin 0))"

declare py_pow.simps [simp del]

text \<open>\<open>math.log2\<close> and \<open>math.sqrt\<close>: a math domain error is a \<open>ValueError\<close>.\<close>

fun py_log2 :: "pyfloat \<Rightarrow> error + pyfloat" where
  "py_log2 (Fin x) = (if x \<le> 0 then Inl ValueError else Inr (round_double (log 2 x)))"
| "py_log2 PInf = Inr PInf"
| "py_log2 NInf = Inl ValueError"
| "py_log2 NaN = Inr NaN"

fun py_sqrt :: "pyfloat \<Rightarrow> error + pyfloat" where
  "py_sqrt (Fin x) = (if x < 0 then Inl ValueError else Inr (round_double (sqrt x)))"
| "py_sqrt PInf = Inr PInf"
| "py_sqrt NInf = Inl ValueError"
| "py_sqrt NaN = Inr NaN"

text \<open>The square root as a float, where it is one.\<close>

fun float_sqrt :: "pyfloat \<Rightarrow> pyfloat" where
  "float_sqrt (Fin x) = round_double (sqrt x)"
| "float_sqrt PInf = PInf"
| "float_sqrt _ = NaN"

text \<open>The float of an integer is the double nearest to it.\<close>

definition float_of_int :: "int \<Rightarrow> pyfloat" where
  "float_of_int i = round_double (of_int i)"

text \<open>The builtins \<open>max(a, b)\<close> and \<open>min(a, b)\<close>: the first argument stays unless the
  second is strictly greater (smaller).\<close>

definition py_max :: "pyfloat \<Rightarrow> pyfloat \<Rightarrow> pyfloat" where
  "py_max a b = (if a < b then b else a)"

definition py_min :: "pyfloat \<Rightarrow> pyfloat \<Rightarrow> pyfloat" where
  "py_min a b = (if b < a then b else a)"

text \<open>Sequencing of computations that may raise.\<close>

definition and_then :: "error + 'a \<Rightarrow> ('a \<Rightarrow> error + 'b) \<Rightarrow> error + 'b" where
  "and_then r f = (case r of Inl e \<Rightarrow> Inl e | Inr v \<Rightarrow> f v)"

subsection \<open>Constants and clipping\<close>

definition MIN_HALF_LIFE :: pyfloat where
  "MIN_HALF_LIFE = Fin 15 / float_of_int (24 * 60)"

definition MAX_HALF_LIFE :: pyfloat where
  "MAX_HALF_LIFE = Fin 274"

definition LN2 :: pyfloat where
  "LN2 = round_double (ln 2)"

definition pclip :: "pyfloat \<Rightarrow> pyfloat" where
  "pclip p = py_min (py_max p (round_double 0.0001)) (round_double 0.9999)"

definition hclip :: "pyfloat \<Rightarrow> pyfloat" where
  "hclip h = py_min (py_max h MIN_HALF_LIFE) MAX_HALF_LIFE"

subsection \<open>The model state\<close>

type_synonym features = "(string \<times> pyfloat) list"

record hlr_model =
  omit_h_term :: bool
  weights :: "string \<rightharpoonup> pyfloat"
  fcounts :: "string \<rightharpoonup> int"
  lrate :: pyfloat
  hlwt :: pyfloat
  l2wt :: pyfloat
  sigma :: pyfloat

text \<open>
  \<open>d[k]\<close> on a \<open>defaultdict\<close>: a missing key is first stored with the default value.
  The result is the value read and the dictionary after the read.
\<close>

definition dd_get :: "'v \<Rightarrow> ('k \<rightharpoonup> 'v) \<Rightarrow> 'k \<Rightarrow> 'v \<times> ('k \<rightharpoonup> 'v)" where
  "dd_get dflt d k = (case d k of None \<Rightarrow> (dflt, d(k \<mapsto> dflt)) | Some v \<Rightarrow> (v, d))"

text \<open>\<open>HLRModel.__init__\<close>: the given initial weights, no counts.\<close>

definition init_model ::
  "(string \<rightharpoonup> pyfloat) option \<Rightarrow> bool \<Rightarrow> pyfloat \<Rightarrow> pyfloat \<Rightarrow> pyfloat \<Rightarrow> pyfloat
     \<Rightarrow> hlr_model" where
  "init_model initial_weights omit lr hl l2 sg =
     \<lparr>omit_h_term = omit,
      weights = (case initial_weights of None \<Rightarrow> Map.empty | Some w \<Rightarrow> Map.empty ++ w),
      fcounts = Map.empty,
      lrate = lr, hlwt = hl, l2wt = l2, sigma = sg\<rparr>"

text \<open>The model that \<open>get_model\<close> creates from the default settings.\<close>

definition default_model :: hlr_model where
  "default_model =
     init_model None False (round_double 0.001) (round_double 0.01) (round_double 0.1) (Fin 1)"

text \<open>A model with every hyperparameter set to one (they are read from the
  environment), for an example below.\<close>

definition unit_model :: hlr_model where
  "unit_model = init_model None False (Fin 1) (Fin 1) (Fin 1) (Fin 1)"

subsection \<open>Prediction\<close>

text \<open>
  \<open>sum(self.weights[k] * x_k for k, x_k in features)\<close>: the running total starts at 0
  and the products are added from left to right, each addition a float addition (the
  builtin \<open>sum\<close> of CPython up to 3.11; later versions compensate the rounding errors
  of finite sums); every read goes through the \<open>defaultdict\<close>.
\<close>

fun dp_sum ::
  "(string \<rightharpoonup> pyfloat) \<Rightarrow> features \<Rightarrow> pyfloat \<Rightarrow> pyfloat \<times> (string \<rightharpoonup> pyfloat)" where
  "dp_sum ws [] acc = (acc, ws)"
| "dp_sum ws ((k, x_k) # rest) acc =
     (case dd_get (Fin 0) ws k of (w, ws') \<Rightarrow> dp_sum ws' rest (acc + w * x_k))"

text \<open>
  \<open>HLRModel.halflife\<close>. \<open>OverflowError\<close> and \<open>ValueError\<close> are caught and answered
  with \<open>MAX_HALF_LIFE\<close>; any other exception leaves the function.
\<close>

definition halflife :: "hlr_model \<Rightarrow> features \<Rightarrow> pyfloat \<Rightarrow> error + (pyfloat \<times> hlr_model)" where
  "halflife m features base =
     (case dp_sum (weights m) features (Fin 0) of (dp, ws) \<Rightarrow>
        (case py_pow base dp of
           Inr v \<Rightarrow> Inr (hclip v, m\<lparr>weights := ws\<rparr>)
         | Inl OverflowError \<Rightarrow> Inr (MAX_HALF_LIFE, m\<lparr>weights := ws\<rparr>)
         | Inl ValueError \<Rightarrow> Inr (MAX_HALF_LIFE, m\<lparr>weights := ws\<rparr>)
         | Inl e \<Rightarrow> Inl e))"

text \<open>\<open>HLRModel.predict\<close>: the pair (recall probability, half-life), and the model
  after the call.\<close>

definition predict ::
  "hlr_model \<Rightarrow> features \<Rightarrow> pyfloat \<Rightarrow> pyfloat
     \<Rightarrow> error + ((pyfloat \<times> pyfloat) \<times> hlr_model)" where
  "predict m features delta_days base =
     and_then (halflife m features base) (\<lambda>(h, m').
     and_then (py_div (- delta_days) h) (\<lambda>q.
     and_then (py_pow (Fin 2) q) (\<lambda>p.
       Inr ((pclip p, h), m'))))"

subsection \<open>Online training\<close>

text \<open>
  The body of the loop of \<open>HLRModel.train_update\<close> for one pair \<open>(k, x_k)\<close>, statement by
  statement. The integer \<open>1 + self.fcounts[k]\<close> becomes the double nearest to it; the
  conversion raises only for an integer beyond the range of doubles, and the counts
  grow by one per update and stay far below that. An exception leaves the loop at
  once.
\<close>

definition train_feature ::
  "pyfloat \<Rightarrow> pyfloat \<Rightarrow> pyfloat \<Rightarrow> hlr_model \<Rightarrow> string \<times> pyfloat \<Rightarrow> error + hlr_model" where
  "train_feature actual_recall dlp_dw dlh_dw m kx =
     (case kx of (k, x_k) \<Rightarrow>
      and_then (py_div (Fin 1) (Fin 1 + actual_recall)) (\<lambda>damp.
      case dd_get 0 (fcounts m) k of (c, fc) \<Rightarrow>
      and_then (py_sqrt (float_of_int (1 + c))) (\<lambda>root.
      and_then (py_div (damp * lrate m) root) (\<lambda>rate.
      case dd_get (Fin 0) (weights m) k of (w0, ws0) \<Rightarrow>
      let ws1 = ws0(k \<mapsto> w0 - rate * dlp_dw * x_k);
          ws2 = (if \<not> omit_h_term m
                 then (case dd_get (Fin 0) ws1 k of (w1, ws1') \<Rightarrow>
                         ws1'(k \<mapsto> w1 - rate * hlwt m * dlh_dw * x_k))
                 else ws1)
      in case dd_get (Fin 0) ws2 k of (w2, ws2') \<Rightarrow>
         case dd_get (Fin 0) ws2' k of (w2', ws2'') \<Rightarrow>
      and_then (py_pow (sigma m) (Fin 2)) (\<lambda>sigma_sq.
      and_then (py_div (rate * l2wt m * w2') sigma_sq) (\<lambda>shrink.
      let ws3 = ws2''(k \<mapsto> w2 - shrink) in
      case dd_get 0 fc k of (c', fc') \<Rightarrow>
        Inr (m\<lparr>weights := ws3, fcounts := fc'(k \<mapsto> c' + 1)\<rparr>)))))))"

fun train_loop ::
  "pyfloat \<Rightarrow> pyfloat \<Rightarrow> pyfloat \<Rightarrow> hlr_model \<Rightarrow> features \<Rightarrow> error + hlr_model" where
  "train_loop actual_recall dlp_dw dlh_dw m [] = Inr m"
| "train_loop actual_recall dlp_dw dlh_dw m (kx # rest) =
     and_then (train_feature actual_recall dlp_dw dlh_dw m kx)
       (\<lambda>m'. train_loop actual_recall dlp_dw dlh_dw m' rest)"

text \<open>
  The block \<open>if actual_half_life is None: ...\<close> of \<open>train_update\<close>: the observed
  half-life when the caller gives one; else the estimate from the observed recall
  when that is above 0.0001 and time has passed; else the predicted half-life \<open>h\<close>.
\<close>

definition resolve_half_life ::
  "pyfloat \<Rightarrow> pyfloat \<Rightarrow> pyfloat option \<Rightarrow> pyfloat \<Rightarrow> error + pyfloat" where
  "resolve_half_life delta_days actual_recall actual_half_life h =
     (case actual_half_life of
        Some a \<Rightarrow> Inr a
      | None \<Rightarrow>
          if round_double 0.0001 < actual_recall \<and> Fin 0 < delta_days
          then and_then (py_log2 actual_recall) (\<lambda>l.
               and_then (py_div (- delta_days) l) (\<lambda>e. Inr (hclip e)))
          else Inr h)"

text \<open>
  \<open>HLRModel.train_update\<close>. \<open>actual_half_life\<close> is \<open>None\<close> when the caller gives no
  observed half-life. \<open>LN2**2\<close> is the square of a constant, the rounded product
  \<open>LN2 * LN2\<close>, and cannot raise.
\<close>

definition train_update ::
  "hlr_model \<Rightarrow> features \<Rightarrow> pyfloat \<Rightarrow> pyfloat \<Rightarrow> pyfloat option \<Rightarrow> error + hlr_model" where
  "train_update m features delta_days actual_recall actual_half_life =
     (let base = Fin 2 in
      and_then (predict m features delta_days base) (\<lambda>((p, h), m1).
      and_then (resolve_half_life delta_days actual_recall actual_half_life h)
        (\<lambda>actual_half_life'.
      and_then (py_div delta_days h) (\<lambda>ratio.
      let dlp_dw = Fin 2 * (p - actual_recall) * (LN2 * LN2) * p * ratio;
          dlh_dw = Fin 2 * (h - actual_half_life') * LN2 * h
      in train_loop actual_recall dlp_dw dlh_dw m1 features))))"

subsection \<open>Export and import of the weights\<close>

text \<open>\<open>get_weights\<close> copies the weight dictionary; \<open>load_weights\<close> replaces it by a fresh
  \<open>defaultdict\<close> filled from the argument.\<close>

definition get_weights :: "hlr_model \<Rightarrow> (string \<rightharpoonup> pyfloat)" where
  "get_weights m = weights m"

definition load_weights :: "hlr_model \<Rightarrow> (string \<rightharpoonup> pyfloat) \<Rightarrow> hlr_model" where
  "load_weights m w = m\<lparr>weights := Map.empty ++ w\<rparr>"

subsection \<open>Observations\<close>

text \<open>What a read with default observes, without the store that the read may make.\<close>

definition get_or :: "'v \<Rightarrow> ('k \<rightharpoonup> 'v) \<Rightarrow> 'k \<Rightarrow> 'v" where
  "get_or dflt d k = (case d k of None \<Rightarrow> dflt | Some v \<Rightarrow> v)"

definition weight_of :: "hlr_model \<Rightarrow> string \<Rightarrow> pyfloat" where
  "weight_of m k = get_or (Fin 0) (weights m) k"

definition count_of :: "hlr_model \<Rightarrow> string \<Rightarrow> int" where
  "count_of m k = get_or 0 (fcounts m) k"

text \<open>The dictionary after reads with default of the keys \<open>ks\<close>.\<close>

definition touched :: "('k \<rightharpoonup> 'v) \<Rightarrow> 'v \<Rightarrow> 'k set \<Rightarrow> ('k \<rightharpoonup> 'v)" where
  "touched d dflt ks = (\<lambda>k. if k \<in> ks \<and> d k = None then Some dflt else d k)"

subsection \<open>The prediction as the specification words it\<close>

text \<open>
  The specification gives the recall as \<open>base^(-elapsedDays / halfLife)\<close>, clipped, with
  the base that is passed to \<open>halflife\<close>. This is that reading, for comparison with
  \<open>predict\<close>.
\<close>

definition predict_as_specified ::
  "hlr_model \<Rightarrow> features \<Rightarrow> pyfloat \<Rightarrow> pyfloat
     \<Rightarrow> error + ((pyfloat \<times> pyfloat) \<times> hlr_model)" where
  "predict_as_specified m features delta_days base =
     and_then (halflife m features base) (\<lambda>(h, m').
     and_then (py_div (- delta_days) h) (\<lambda>q.
     and_then (py_pow base q) (\<lambda>p.
       Inr ((pclip p, h), m'))))"

subsection \<open>The training step as the specification words it\<close>

text \<open>
  The specification describes training on the two mappings read with default: the
  weight of a name (0.0 when unseen) and its update count (0 when unseen). For one
  pair \<open>(name, value)\<close> it gives the rate and three adjustment terms, applied in this
  order, and then the increment of the count. \<open>sigma_sq\<close> stands for \<open>sigma^2\<close>.
\<close>

definition step_rate :: "pyfloat \<Rightarrow> pyfloat \<Rightarrow> int \<Rightarrow> pyfloat" where
  "step_rate actual_recall lr c =
     (Fin 1 / (Fin 1 + actual_recall)) * lr / float_sqrt (float_of_int (1 + c))"

definition recall_term :: "pyfloat \<Rightarrow> pyfloat \<Rightarrow> pyfloat \<Rightarrow> pyfloat" where
  "recall_term rate dlp value = rate * dlp * value"

definition half_life_term :: "pyfloat \<Rightarrow> pyfloat \<Rightarrow> pyfloat \<Rightarrow> pyfloat \<Rightarrow> pyfloat" where
  "half_life_term rate hlw dlh value = rate * hlw * dlh * value"

definition shrink_term :: "pyfloat \<Rightarrow> pyfloat \<Rightarrow> pyfloat \<Rightarrow> pyfloat \<Rightarrow> pyfloat" where
  "shrink_term rate l2 w sigma_sq = rate * l2 * w / sigma_sq"

definition train_step_spec ::
  "bool \<Rightarrow> pyfloat \<Rightarrow> pyfloat \<Rightarrow> pyfloat \<Rightarrow> pyfloat \<Rightarrow> pyfloat \<Rightarrow> pyfloat \<Rightarrow> pyfloat
     \<Rightarrow> (string \<Rightarrow> pyfloat) \<times> (string \<Rightarrow> int) \<Rightarrow> string \<times> pyfloat
     \<Rightarrow> (string \<Rightarrow> pyfloat) \<times> (string \<Rightarrow> int)" where
  "train_step_spec omit lr hlw l2 sigma_sq actual_recall dlp dlh wc nv =
     (case (wc, nv) of ((wt, ct), (name, value)) \<Rightarrow>
      let rate = step_rate actual_recall lr (ct name);
          w1 = wt name - recall_term rate dlp value;
          w2 = (if omit then w1 else w1 - half_life_term rate hlw dlh value);
          w3 = w2 - shrink_term rate l2 w2 sigma_sq
      in (wt(name := w3), ct(name := ct name + 1)))"

text \<open>The weight that this step leaves for a name with weight \<open>w\<close> and count \<open>c\<close>.\<close>

definition stepped_weight ::
  "bool \<Rightarrow> pyfloat \<Rightarrow> pyfloat \<Rightarrow> pyfloat \<Rightarrow> pyfloat \<Rightarrow> pyfloat \<Rightarrow> pyfloat \<Rightarrow> pyfloat
     \<Rightarrow> pyfloat \<Rightarrow> int \<Rightarrow> pyfloat \<Rightarrow> pyfloat" where
  "stepped_weight omit lr hlw l2 sigma_sq actual_recall dlp dlh w c value =
     (let rate = step_rate actual_recall lr c;
          w1 = w - recall_term rate dlp value;
          w2 = (if omit then w1 else w1 - half_life_term rate hlw dlh value)
      in w2 - shrink_term rate l2 w2 sigma_sq)"

text \<open>The step that only shrinks: no gradient term, the L2 term, the count.\<close>

definition shrink_step ::
  "pyfloat \<Rightarrow> pyfloat \<Rightarrow> pyfloat \<Rightarrow> pyfloat
     \<Rightarrow> (string \<Rightarrow> pyfloat) \<times> (string \<Rightarrow> int) \<Rightarrow> string \<times> pyfloat
     \<Rightarrow> (string \<Rightarrow> pyfloat) \<times> (string \<Rightarrow> int)" where
  "shrink_step lr l2 sigma_sq actual_recall wc nv =
     (case (wc, nv) of ((wt, ct), (name, value)) \<Rightarrow>
      let rate = step_rate actual_recall lr (ct name)
      in (wt(name := wt name - shrink_term rate l2 (wt name) sigma_sq),
          ct(name := ct name + 1)))"

text \<open>The two mappings of a model as the specification reads them.\<close>

definition view :: "hlr_model \<Rightarrow> (string \<Rightarrow> pyfloat) \<times> (string \<Rightarrow> int)" where
  "view m = (weight_of m, count_of m)"

text \<open>The hyperparameters of two models agree.\<close>

definition same_settings :: "hlr_model \<Rightarrow> hlr_model \<Rightarrow> bool" where
  "same_settings m' m =
     (omit_h_term m' = omit_h_term m \<and> lrate m' = lrate m \<and> hlwt m' = hlwt m
      \<and> l2wt m' = l2wt m \<and> sigma m' = sigma m)"

text \<open>Conditions on a model and on a feature vector: no count is negative, the stored
  weights are doubles (or infinities or NaN), the feature values are finite.\<close>

definition counts_nonneg :: "hlr_model \<Rightarrow> bool" where
  "counts_nonneg m = (\<forall>k. 0 \<le> count_of m k)"

definition weights_in_range :: "hlr_model \<Rightarrow> bool" where
  "weights_in_range m = (\<forall>k. in_range (weight_of m k))"

text \<open>The learning rate is a finite float, and its product with the weight of the
  half-life term is finite.\<close>

definition settings_in_range :: "hlr_model \<Rightarrow> bool" where
  "settings_in_range m =
     (\<exists>lr hl. lrate m = Fin lr \<and> hlwt m = Fin hl
        \<and> in_range (Fin lr) \<and> \<bar>lr * hl\<bar> \<le> FLOAT_MAX)"

fun finite_float :: "pyfloat \<Rightarrow> bool" where
  "finite_float (Fin r) = True"
| "finite_float _ = False"

definition finite_values :: "features \<Rightarrow> bool" where
  "finite_values fs = list_all (\<lambda>(k, x). finite_float x) fs"

text \<open>
  Every addition of the dot product is exact: each product is finite, and each sum of
  the running total \<open>acc\<close> and the next product is a double, so that the float
  addition returns it unrounded.
\<close>

fun exact_sums :: "(string \<rightharpoonup> pyfloat) \<Rightarrow> features \<Rightarrow> real \<Rightarrow> bool" where
  "exact_sums ws [] acc = True"
| "exact_sums ws ((k, x_k) # rest) acc =
     (case get_or (Fin 0) ws k * x_k of
        Fin t \<Rightarrow> in_range (Fin (acc + t)) \<and> exact_sums ws rest (acc + t)
      | _ \<Rightarrow> False)"

text \<open>The product of a pair as a real number, where it is finite.\<close>

definition product_value :: "(string \<rightharpoonup> pyfloat) \<Rightarrow> string \<times> pyfloat \<Rightarrow> real" where
  "product_value ws kx =
     (case kx of (k, x_k) \<Rightarrow> (case get_or (Fin 0) ws k * x_k of Fin t \<Rightarrow> t | _ \<Rightarrow> 0))"

section \<open>Facts about rounding\<close>

lemma ulp_pos [simp]: "0 < ulp x"
  by (simp add: ulp_def)

lemma ulp_nz [simp]: "ulp x \<noteq> 0"
  using ulp_pos[of x] by linarith

lemma ulp_nonneg [simp]: "0 \<le> ulp x"
  using ulp_pos[of x] by linarith

lemma binade_abs [simp]: "binade \<bar>x\<bar> = binade x" "binade (- x) = binade x"
  by (simp_all add: binade_def)

lemma ulp_abs [simp]: "ulp \<bar>x\<bar> = ulp x" "ulp (- x) = ulp x"
  by (simp_all add: ulp_def)

lemma rhe_int [simp]: "round_half_even (of_int i) = i"
  by (simp add: round_half_even_def)

lemma rhe_Ints: "m \<in> \<int> \<Longrightarrow> of_int (round_half_even m) = m"
  by (auto elim: Ints_cases)

lemma rhe_le: "m \<le> of_int i \<Longrightarrow> round_half_even m \<le> i"
  unfolding round_half_even_def by (auto split: if_splits; linarith)

lemma rhe_ge: "of_int i \<le> m \<Longrightarrow> i \<le> round_half_even m"
  unfolding round_half_even_def by (auto split: if_splits; linarith)

lemma rhe_close: "\<bar>of_int (round_half_even m) - m\<bar> \<le> 1 / 2"
  unfolding round_half_even_def by (auto split: if_splits; linarith)

lemma binade_ge: "- 1022 \<le> binade x"
  by (simp add: binade_def)

lemma binade_upper:
  assumes "x \<noteq> 0"
  shows "\<bar>x\<bar> < 2 powr of_int (binade x + 1)"
proof -
  have "log 2 \<bar>x\<bar> < of_int (\<lfloor>log 2 \<bar>x\<bar>\<rfloor> + 1)" by linarith
  also have "\<dots> \<le> of_int (binade x + 1)" unfolding binade_def by simp
  finally have "log 2 \<bar>x\<bar> < of_int (binade x + 1)" .
  then show ?thesis using assms by (simp add: log_less_iff)
qed

lemma binade_lower:
  assumes "2 powr (- 1022) \<le> \<bar>x\<bar>"
  shows "2 powr of_int (binade x) \<le> \<bar>x\<bar>"
proof -
  have pos: "0 < \<bar>x\<bar>" using assms powr_gt_zero[of 2 "- 1022"] by linarith
  have "- 1022 \<le> log 2 \<bar>x\<bar>" using assms pos by (simp add: le_log_iff)
  then have "(- 1022 :: int) \<le> \<lfloor>log 2 \<bar>x\<bar>\<rfloor>" by (simp add: le_floor_iff)
  then have "binade x = \<lfloor>log 2 \<bar>x\<bar>\<rfloor>" by (simp add: binade_def)
  then have "of_int (binade x) \<le> log 2 \<bar>x\<bar>" by simp
  then show ?thesis using pos by (simp add: le_log_iff)
qed

lemma binade_mono:
  assumes "a \<noteq> 0" "\<bar>a\<bar> \<le> \<bar>x\<bar>"
  shows "binade a \<le> binade x"
proof -
  have "log 2 \<bar>a\<bar> \<le> log 2 \<bar>x\<bar>" using assms by simp
  then have "\<lfloor>log 2 \<bar>a\<bar>\<rfloor> \<le> \<lfloor>log 2 \<bar>x\<bar>\<rfloor>" by (rule floor_mono)
  then show ?thesis by (simp add: binade_def)
qed

lemma binade_unique:
  assumes "2 powr of_int n \<le> \<bar>x\<bar>" "\<bar>x\<bar> < 2 powr of_int (n + 1)" "- 1022 \<le> n"
  shows "binade x = n"
proof -
  have pos: "0 < \<bar>x\<bar>" using assms(1) powr_gt_zero[of 2 "of_int n"] by linarith
  have "of_int n \<le> log 2 \<bar>x\<bar>" using assms(1) pos by (simp add: le_log_iff)
  moreover have "log 2 \<bar>x\<bar> < of_int n + 1" using assms(2) pos by (simp add: log_less_iff)
  ultimately have "\<lfloor>log 2 \<bar>x\<bar>\<rfloor> = n" by linarith
  then show ?thesis using assms(3) by (simp add: binade_def)
qed

lemma binade_small:
  assumes "x \<noteq> 0" "\<bar>x\<bar> \<le> 2 powr (- 1022)"
  shows "binade x = - 1022"
proof -
  have "log 2 \<bar>x\<bar> \<le> - 1022" using assms by (simp add: log_le_iff)
  then have "\<lfloor>log 2 \<bar>x\<bar>\<rfloor> \<le> - 1022" by linarith
  then show ?thesis by (simp add: binade_def)
qed

lemma powr_int_Ints: "0 \<le> n \<Longrightarrow> (2::real) powr of_int n \<in> \<int>"
proof -
  assume "0 \<le> n"
  then have "(2::real) powr of_int n = of_int (2 ^ nat n)"
    by (simp add: powr_real_of_int)
  then show ?thesis by (metis Ints_of_int)
qed

lemma ulp_ratio: "ulp a / ulp x = 2 powr of_int (binade a - binade x)"
  by (simp add: ulp_def powr_diff)

lemma round_magnitude_nonneg: "0 \<le> round_magnitude x"
proof -
  have "of_int 0 \<le> \<bar>x\<bar> / ulp x" using ulp_pos[of x] by (simp add: divide_nonneg_pos)
  then have "0 \<le> round_half_even (\<bar>x\<bar> / ulp x)" by (rule rhe_ge)
  then show ?thesis by (simp add: round_magnitude_def mult_nonneg_nonneg)
qed

lemma round_magnitude_zero [simp]: "round_magnitude 0 = 0"
  using rhe_int[of 0] by (simp add: round_magnitude_def del: rhe_int)

lemma round_magnitude_abs [simp]: "round_magnitude \<bar>x\<bar> = round_magnitude x"
  "round_magnitude (- x) = round_magnitude x"
  by (simp_all add: round_magnitude_def)

text \<open>A multiple of a coarser unit is a multiple of a finer one.\<close>

lemma multiple_finer:
  assumes "a / ulp a \<in> \<int>" "binade x \<le> binade a"
  shows "a / ulp x \<in> \<int>"
proof -
  have "a / ulp x = (a / ulp a) * (ulp a / ulp x)" by simp
  moreover have "ulp a / ulp x \<in> \<int>"
    unfolding ulp_ratio using assms(2) by (intro powr_int_Ints) simp
  ultimately show ?thesis using assms(1) by (metis Ints_mult)
qed

lemma round_magnitude_le:
  assumes "\<bar>x\<bar> \<le> a" "a / ulp x \<in> \<int>"
  shows "round_magnitude x \<le> a"
proof -
  obtain i where i: "a / ulp x = of_int i" using assms(2) by (auto elim: Ints_cases)
  have "\<bar>x\<bar> / ulp x \<le> of_int i" unfolding i[symmetric] using assms(1) ulp_pos[of x]
    by (intro divide_right_mono) simp_all
  then have "round_half_even (\<bar>x\<bar> / ulp x) \<le> i" by (rule rhe_le)
  then have "round_magnitude x \<le> of_int i * ulp x"
    unfolding round_magnitude_def by (simp add: mult_right_mono)
  also have "\<dots> = a" unfolding i[symmetric] by simp
  finally show ?thesis .
qed

lemma round_magnitude_ge:
  assumes "a \<le> \<bar>x\<bar>" "a / ulp x \<in> \<int>"
  shows "a \<le> round_magnitude x"
proof -
  obtain i where i: "a / ulp x = of_int i" using assms(2) by (auto elim: Ints_cases)
  have "of_int i \<le> \<bar>x\<bar> / ulp x" unfolding i[symmetric] using assms(1) ulp_pos[of x]
    by (intro divide_right_mono) simp_all
  then have "i \<le> round_half_even (\<bar>x\<bar> / ulp x)" by (rule rhe_ge)
  then have "of_int i * ulp x \<le> round_magnitude x"
    unfolding round_magnitude_def by (simp add: mult_right_mono)
  moreover have "of_int i * ulp x = a" unfolding i[symmetric] by simp
  ultimately show ?thesis by simp
qed

lemma binade_power: "2 powr of_int (binade x) / ulp x = 2 ^ 52"
  "2 powr of_int (binade x + 1) / ulp x = 2 ^ 53"
proof -
  have "2 powr of_int (binade x) / ulp x = 2 powr 52"
    unfolding ulp_def by (simp add: powr_diff[symmetric])
  then show "2 powr of_int (binade x) / ulp x = 2 ^ 52" by simp
  have "2 powr of_int (binade x + 1) / ulp x = 2 powr 53"
    unfolding ulp_def by (simp add: powr_diff[symmetric])
  then show "2 powr of_int (binade x + 1) / ulp x = 2 ^ 53" by simp
qed

lemma binade_power_Ints: "2 powr of_int (binade x) / ulp x \<in> \<int>"
  "2 powr of_int (binade x + 1) / ulp x \<in> \<int>"
  unfolding binade_power by simp_all

text \<open>Rounding stays inside the binade, its upper end included.\<close>

lemma round_magnitude_upper:
  assumes "x \<noteq> 0"
  shows "round_magnitude x \<le> 2 powr of_int (binade x + 1)"
  using binade_upper[OF assms] by (intro round_magnitude_le binade_power_Ints) simp

lemma round_magnitude_lower:
  assumes "2 powr (- 1022) \<le> \<bar>x\<bar>"
  shows "2 powr of_int (binade x) \<le> round_magnitude x"
  using binade_lower[OF assms] by (intro round_magnitude_ge binade_power_Ints)

text \<open>Rounding is monotone at the values of the format.\<close>

lemma round_magnitude_below:
  assumes "0 \<le> a" "a / ulp a \<in> \<int>" "\<bar>x\<bar> \<le> a"
  shows "round_magnitude x \<le> a"
proof (cases "x = 0")
  case True
  then show ?thesis using assms(1) by simp
next
  case False
  then have "binade x \<le> binade a" using assms(1,3) by (intro binade_mono) simp_all
  with assms(2) have "a / ulp x \<in> \<int>" by (rule multiple_finer)
  with assms(3) show ?thesis by (rule round_magnitude_le)
qed

lemma round_magnitude_above:
  assumes "0 \<le> a" "a / ulp a \<in> \<int>" "a \<le> \<bar>x\<bar>"
  shows "a \<le> round_magnitude x"
proof (cases "a = 0")
  case True
  then show ?thesis by (simp add: round_magnitude_nonneg)
next
  case False
  then have le: "binade a \<le> binade x" using assms(1,3) by (intro binade_mono) simp_all
  show ?thesis
  proof (cases "binade a = binade x")
    case True
    then have "ulp a = ulp x" by (simp add: ulp_def)
    then show ?thesis using assms by (intro round_magnitude_ge) simp_all
  next
    case ne: False
    then have lt: "binade a + 1 \<le> binade x" using le by simp
    have "- 1022 < binade x" using lt binade_ge[of a] by linarith
    then have "- 1022 < \<lfloor>log 2 \<bar>x\<bar>\<rfloor>" unfolding binade_def by linarith
    then have "- 1022 \<le> log 2 \<bar>x\<bar>" by linarith
    moreover have "0 < \<bar>x\<bar>" using False assms(1,3) by linarith
    ultimately have "2 powr (- 1022) \<le> \<bar>x\<bar>" by (simp add: le_log_iff)
    then have "2 powr of_int (binade x) \<le> round_magnitude x" by (rule round_magnitude_lower)
    moreover have "\<bar>a\<bar> < 2 powr of_int (binade a + 1)" using False by (rule binade_upper)
    moreover have "(2::real) powr of_int (binade a + 1) \<le> 2 powr of_int (binade x)"
      using lt by (simp del: of_int_add)
    ultimately show ?thesis by linarith
  qed
qed

text \<open>The rounded value is a value of the format.\<close>

lemma round_magnitude_multiple: "round_magnitude x / ulp (round_magnitude x) \<in> \<int>"
proof (cases "round_magnitude x = 0")
  case True
  then show ?thesis by simp
next
  case nz: False
  then have x: "x \<noteq> 0" by auto
  have pos: "0 < round_magnitude x" using nz round_magnitude_nonneg[of x] by linarith
  have q: "round_magnitude x / ulp x \<in> \<int>" by (simp add: round_magnitude_def)
  show ?thesis
  proof (cases "2 powr (- 1022) \<le> \<bar>x\<bar>")
    case True
    have lo: "2 powr of_int (binade x) \<le> \<bar>round_magnitude x\<bar>"
      using round_magnitude_lower[OF True] by simp
    have up: "round_magnitude x \<le> 2 powr of_int (binade x + 1)"
      using round_magnitude_upper[OF x] .
    show ?thesis
    proof (cases "round_magnitude x = 2 powr of_int (binade x + 1)")
      case True
      have "binade (round_magnitude x) = binade x + 1"
        unfolding True using binade_ge[of x]
        by (intro binade_unique) (simp_all del: of_int_add)
      then have "ulp (round_magnitude x) = ulp x * 2"
        by (simp add: ulp_def powr_diff powr_add)
      then have "round_magnitude x / ulp (round_magnitude x)
                 = (2 powr of_int (binade x + 1) / ulp x) / 2"
        using True by simp
      then show ?thesis unfolding binade_power by simp
    next
      case False
      then have "\<bar>round_magnitude x\<bar> < 2 powr of_int (binade x + 1)" using up pos by simp
      then have "binade (round_magnitude x) = binade x"
        using lo binade_ge[of x] by (intro binade_unique)
      then have "ulp (round_magnitude x) = ulp x" by (simp add: ulp_def)
      then show ?thesis using q by simp
    qed
  next
    case False
    then have small: "\<bar>x\<bar> \<le> 2 powr (- 1022)" by simp
    have b: "binade x = - 1022" using x small by (rule binade_small)
    have "2 powr (- 1022) / ulp x \<in> \<int>" using binade_power_Ints(1)[of x] by (simp add: b)
    then have "round_magnitude x \<le> 2 powr (- 1022)" using small by (intro round_magnitude_le)
    then have "binade (round_magnitude x) = - 1022" using nz pos by (intro binade_small) simp_all
    then have "ulp (round_magnitude x) = ulp x" by (simp add: ulp_def b)
    then show ?thesis using q by simp
  qed
qed


section \<open>Facts about floats\<close>

declare in_range.simps(1) [simp del]

lemma FLOAT_MAX_large: "2 ^ 1000 \<le> FLOAT_MAX"
  unfolding FLOAT_MAX_def by simp

lemma FLOAT_MAX_pos: "0 < FLOAT_MAX" "1 \<le> FLOAT_MAX" "274 < FLOAT_MAX"
  using FLOAT_MAX_large by simp_all

lemma FLOAT_MAX_ge_two: "2 \<le> FLOAT_MAX"
  unfolding FLOAT_MAX_def by simp

lemma FLOAT_MAX_less: "FLOAT_MAX < 2 ^ 1024"
  unfolding FLOAT_MAX_def by simp

text \<open>A double rounds to itself.\<close>

lemma round_magnitude_exact:
  assumes "x / ulp x \<in> \<int>"
  shows "round_magnitude x = \<bar>x\<bar>"
proof -
  have "\<bar>x\<bar> / ulp x = \<bar>x / ulp x\<bar>" by simp
  then have "\<bar>x\<bar> / ulp x \<in> \<int>" using assms by (metis Ints_abs)
  then have "of_int (round_half_even (\<bar>x\<bar> / ulp x)) = \<bar>x\<bar> / ulp x" by (rule rhe_Ints)
  then show ?thesis by (simp add: round_magnitude_def)
qed

lemma round_double_exact: "in_range (Fin x) \<Longrightarrow> round_double x = Fin x"
  by (simp add: in_range.simps round_double_def round_magnitude_exact sgn_mult_abs)

lemma round_double_zero [simp]: "round_double 0 = Fin 0"
  using FLOAT_MAX_pos(1) by (simp add: round_double_def)

lemma round_double_not_NaN [simp]: "round_double x \<noteq> NaN"
  by (simp add: round_double_def)

text \<open>Every result of rounding is a double or an infinity.\<close>

lemma in_range_round_double [simp]: "in_range (round_double x)"
proof (cases "FLOAT_MAX < round_magnitude x")
  case True
  then show ?thesis by (simp add: round_double_def)
next
  case False
  define y where "y = round_magnitude x"
  have y: "0 \<le> y" "y \<le> FLOAT_MAX" "y / ulp y \<in> \<int>"
    using False round_magnitude_nonneg[of x] round_magnitude_multiple[of x] by (simp_all add: y_def)
  have "in_range (Fin (sgn x * y))"
  proof (cases "x = 0")
    case True
    then show ?thesis using FLOAT_MAX_pos(1) by (simp add: in_range.simps)
  next
    case nz: False
    then have a: "\<bar>sgn x * y\<bar> = y" using y(1) by (simp add: abs_mult)
    have "ulp (sgn x * y) = ulp \<bar>sgn x * y\<bar>" by simp
    then have u: "ulp (sgn x * y) = ulp y" unfolding a .
    have "sgn x * y / ulp (sgn x * y) = sgn x * (y / ulp y)" unfolding u by simp
    moreover have "sgn x \<in> \<int>" by (simp add: sgn_real_def)
    ultimately have "sgn x * y / ulp (sgn x * y) \<in> \<int>" using y(3) by (metis Ints_mult)
    then show ?thesis using a y(2) by (simp add: in_range.simps)
  qed
  then show ?thesis using False by (simp add: round_double_def y_def)
qed

lemma round_double_uminus: "round_double (- x) = - round_double x"
  using round_magnitude_nonneg[of x] FLOAT_MAX_pos(1)
  by (cases "x = 0") (auto simp: round_double_def)

lemma in_range_uminus [simp]: "in_range (- a) = in_range a"
proof (cases a)
  case (Fin r)
  have "- r / ulp r = - (r / ulp r)" by simp
  then show ?thesis using Fin by (simp add: in_range.simps del: minus_divide_left)
qed simp_all

text \<open>The doubles: a significand of at most 53 bits times a power of two.\<close>

lemma in_range_scaled:
  assumes "\<bar>i\<bar> < 2 ^ 53" "- 1074 \<le> e" "e \<le> 971"
  shows "in_range (Fin (of_int i * 2 powr of_int e))"
proof (cases "i = 0")
  case True
  then show ?thesis using FLOAT_MAX_pos(1) by (simp add: in_range.simps)
next
  case False
  define x :: real where "x = of_int i * 2 powr of_int e"
  have i: "\<bar>of_int i :: real\<bar> \<le> 2 ^ 53 - 1"
  proof -
    have "\<bar>i\<bar> \<le> 2 ^ 53 - 1" using assms(1) by simp
    then have "(of_int \<bar>i\<bar> :: real) \<le> of_int (2 ^ 53 - 1)" by (simp only: of_int_le_iff)
    then show ?thesis by simp
  qed
  have a: "\<bar>x\<bar> = \<bar>of_int i\<bar> * 2 powr of_int e" by (simp add: x_def abs_mult)
  have p: "(2::real) powr of_int e \<le> 2 ^ 971"
  proof -
    have "(2::real) powr of_int e \<le> 2 powr of_int 971"
      using assms(3) by (intro powr_mono) simp_all
    then show ?thesis by simp
  qed
  have "\<bar>x\<bar> \<le> (2 ^ 53 - 1) * 2 ^ 971"
    unfolding a using i p by (intro mult_mono) simp_all
  then have mx: "\<bar>x\<bar> \<le> FLOAT_MAX" by (simp add: FLOAT_MAX_def)
  have xz: "x \<noteq> 0" using False by (simp add: x_def)
  have "\<bar>x\<bar> < 2 ^ 53 * 2 powr of_int e"
    unfolding a using i by (intro mult_strict_right_mono) simp_all
  also have "\<dots> = 2 powr of_int (e + 53)"
    by (simp add: powr_add)
  finally have "log 2 \<bar>x\<bar> < of_int (e + 53)" using xz by (simp add: log_less_iff)
  then have "\<lfloor>log 2 \<bar>x\<bar>\<rfloor> < e + 53" by (simp add: floor_less_iff)
  then have b: "binade x \<le> e + 52" using assms(2) by (simp add: binade_def)
  have "x / ulp x = of_int i * (2 powr of_int e / 2 powr of_int (binade x - 52))"
    by (simp add: x_def ulp_def)
  also have "\<dots> = of_int i * 2 powr of_int (e - (binade x - 52))"
    by (simp add: powr_diff)
  finally have "x / ulp x = of_int i * 2 powr of_int (e - (binade x - 52))" .
  moreover have "(2::real) powr of_int (e - (binade x - 52)) \<in> \<int>"
    using b by (intro powr_int_Ints) simp
  ultimately have "x / ulp x \<in> \<int>" by (simp add: Ints_mult)
  then show ?thesis using mx by (simp add: in_range.simps x_def)
qed

lemma in_range_of_int: "\<bar>i\<bar> < 2 ^ 53 \<Longrightarrow> in_range (Fin (of_int i))"
  using in_range_scaled[of i 0] by simp

lemma in_range_numeral [simp]:
  "numeral n < (2 ^ 53 :: int) \<Longrightarrow> in_range (Fin (numeral n))"
  "numeral n < (2 ^ 53 :: int) \<Longrightarrow> in_range (Fin (- numeral n))"
  using in_range_of_int[of "numeral n"] in_range_of_int[of "- numeral n"] by simp_all

lemma in_range_zero_one [simp]: "in_range (Fin 0)" "in_range (Fin 1)" "in_range (Fin (- 1))"
  using in_range_of_int[of 0] in_range_of_int[of 1] in_range_of_int[of "- 1"] by simp_all

lemma binade_powr: "- 1022 \<le> e \<Longrightarrow> binade (2 powr of_int e) = e"
  by (rule binade_unique) (simp_all del: of_int_add)

lemma powr_multiple:
  assumes "- 1022 \<le> e"
  shows "2 powr of_int e / ulp (2 powr of_int e) \<in> \<int>"
  using binade_power_Ints(1)[of "2 powr of_int e"] by (simp only: binade_powr[OF assms])

lemma in_range_powr:
  assumes "- 1074 \<le> e" "e \<le> 1023"
  shows "in_range (Fin (2 powr of_int e))"
proof (cases "e \<le> 971")
  case True
  then show ?thesis using in_range_scaled[of 1 e] assms(1) by simp
next
  case False
  have "(2::real) powr of_int e \<le> 2 powr of_int 1023"
    using assms(2) by (intro powr_mono) simp_all
  also have "\<dots> \<le> FLOAT_MAX" by (simp add: FLOAT_MAX_def)
  finally have "\<bar>2 powr of_int e\<bar> \<le> FLOAT_MAX" by simp
  then show ?thesis using powr_multiple[of e] False by (simp add: in_range.simps)
qed

lemma in_range_power [simp]: "n \<le> 1023 \<Longrightarrow> in_range (Fin (2 ^ n))"
  using in_range_powr[of "int n"] by (simp add: powr_realpow)

lemma in_range_inverse_power [simp]: "n \<le> 1074 \<Longrightarrow> in_range (Fin (1 / 2 ^ n))"
  using in_range_powr[of "- int n"] by (simp add: powr_minus_divide powr_realpow)

lemma in_range_half [simp]: "in_range (Fin (1 / 2))" "in_range (Fin (1 / 4))"
  using in_range_inverse_power[of 1] in_range_inverse_power[of 2] by simp_all

lemma in_range_FLOAT_MAX: "in_range (Fin FLOAT_MAX)"
  using in_range_scaled[of "2 ^ 53 - 1" 971] by (simp add: FLOAT_MAX_def)

text \<open>Rounding keeps a number between two doubles between them.\<close>

lemma round_double_nonneg_between:
  assumes "in_range (Fin lo)" "in_range (Fin hi)" "lo \<le> x" "x \<le> hi" "0 \<le> x"
  shows "\<exists>y. round_double x = Fin y \<and> lo \<le> y \<and> y \<le> hi \<and> 0 \<le> y"
proof -
  have hi: "0 \<le> hi" "hi / ulp hi \<in> \<int>" "hi \<le> FLOAT_MAX"
    using assms by (simp_all add: in_range.simps)
  have up: "round_magnitude x \<le> hi" using hi assms(4,5) by (intro round_magnitude_below) simp_all
  have nn: "0 \<le> round_magnitude x" by (rule round_magnitude_nonneg)
  have y: "sgn x * round_magnitude x = round_magnitude x"
    using assms(5) by (cases "x = 0") (simp_all add: sgn_real_def)
  have lo: "lo \<le> round_magnitude x"
  proof (cases "lo \<le> 0")
    case True
    then show ?thesis using nn by linarith
  next
    case False
    then show ?thesis using assms(1,3)
      by (intro round_magnitude_above) (simp_all add: in_range.simps)
  qed
  show ?thesis using up hi(3) lo nn by (simp add: round_double_def y)
qed

lemma round_double_between:
  assumes "in_range (Fin lo)" "in_range (Fin hi)" "lo \<le> x" "x \<le> hi"
  shows "\<exists>y. round_double x = Fin y \<and> lo \<le> y \<and> y \<le> hi"
proof (cases "0 \<le> x")
  case True
  then show ?thesis using round_double_nonneg_between[OF assms] by blast
next
  case False
  have l: "in_range (Fin (- hi))" "in_range (Fin (- lo))"
    using assms(1,2) in_range_uminus[of "Fin hi"] in_range_uminus[of "Fin lo"] by simp_all
  from round_double_nonneg_between[OF l, of "- x"] assms(3,4) False
  obtain y where y: "round_double (- x) = Fin y" "- hi \<le> y" "y \<le> - lo" by auto
  have "round_double x = - round_double (- x)"
    using round_double_uminus[of "- x"] by simp
  then have "round_double x = Fin (- y)" by (simp add: y(1))
  then show ?thesis using y(2,3) by auto
qed

lemma round_double_finite:
  assumes "\<bar>x\<bar> \<le> FLOAT_MAX"
  shows "\<exists>y. round_double x = Fin y \<and> \<bar>y\<bar> \<le> FLOAT_MAX"
proof -
  have l: "in_range (Fin (- FLOAT_MAX))"
    using in_range_FLOAT_MAX in_range_uminus[of "Fin FLOAT_MAX"] by simp
  from round_double_between[OF l in_range_FLOAT_MAX, of x] assms show ?thesis
    by (auto simp: abs_le_iff)
qed

lemma round_double_bounded:
  assumes "\<bar>x\<bar> \<le> b" "in_range (Fin b)"
  shows "\<exists>y. round_double x = Fin y \<and> \<bar>y\<bar> \<le> b"
proof -
  have l: "in_range (Fin (- b))" using assms(2) in_range_uminus[of "Fin b"] by simp
  from round_double_between[OF l assms(2), of x] assms(1) show ?thesis
    by (auto simp: abs_le_iff)
qed

text \<open>Beyond the doubles rounding gives an infinity.\<close>

lemma round_double_overflow:
  assumes "2 ^ 1024 \<le> x"
  shows "round_double x = PInf" "round_double (- x) = NInf"
proof -
  have e: "(2::real) powr of_int 1024 = 2 ^ 1024" by simp
  have "(2 ^ 1024 :: real) / ulp (2 ^ 1024) \<in> \<int>"
    using powr_multiple[of 1024] unfolding e by simp
  then have "2 ^ 1024 \<le> round_magnitude x"
    using assms by (intro round_magnitude_above) simp_all
  then have m: "FLOAT_MAX < round_magnitude x" using FLOAT_MAX_less by linarith
  have "0 < x" using assms by (rule less_le_trans[rotated]) simp
  then show "round_double x = PInf" using m by (simp add: round_double_def)
  then show "round_double (- x) = NInf" by (simp add: round_double_uminus)
qed

lemma round_double_PInf: "2 ^ 1024 \<le> x \<Longrightarrow> round_double x = PInf"
  by (rule round_double_overflow)

lemma round_double_NInf: "x \<le> - (2 ^ 1024) \<Longrightarrow> round_double x = NInf"
  using round_double_overflow(2)[of "- x"] by simp

lemma in_range_neg [simp]: "in_range (Fin (- x)) = in_range (Fin x)"
  using in_range_uminus[of "Fin x"] by simp

text \<open>Rounding does not go below a positive double that the number is not below.\<close>

lemma round_double_above:
  assumes "in_range (Fin lo)" "0 < lo" "lo \<le> x"
  shows "round_double x = PInf \<or> (\<exists>y. round_double x = Fin y \<and> lo \<le> y)"
proof -
  have "lo \<le> round_magnitude x"
    using assms by (intro round_magnitude_above) (simp_all add: in_range.simps)
  moreover have "sgn x = 1" using assms(2,3) by simp
  ultimately show ?thesis using assms(2,3) by (simp add: round_double_def)
qed

text \<open>Rounding keeps the sign.\<close>

lemma round_double_sign:
  "0 \<le> x \<Longrightarrow> round_double x = PInf \<or> (\<exists>y. round_double x = Fin y \<and> 0 \<le> y)"
  "x \<le> 0 \<Longrightarrow> round_double x = NInf \<or> (\<exists>y. round_double x = Fin y \<and> y \<le> 0)"
  using round_magnitude_nonneg[of x] FLOAT_MAX_pos(1)
  by (auto simp: round_double_def sgn_real_def mult_nonneg_nonneg)

text \<open>Operations whose exact result is a double return it.\<close>

lemma fin_plus: "in_range (Fin (a + b)) \<Longrightarrow> Fin a + Fin b = Fin (a + b)"
  by (simp add: round_double_exact)

lemma fin_minus: "in_range (Fin (a - b)) \<Longrightarrow> Fin a - Fin b = Fin (a - b)"
  by (simp add: minus_pyfloat_def round_double_exact)

lemma fin_times: "in_range (Fin (a * b)) \<Longrightarrow> Fin a * Fin b = Fin (a * b)"
  by (simp add: round_double_exact)

lemma fin_divide: "b \<noteq> 0 \<Longrightarrow> in_range (Fin (a / b)) \<Longrightarrow> Fin a / Fin b = Fin (a / b)"
  by (simp add: round_double_exact)

lemma fin_times_zero [simp]: "Fin a * Fin 0 = Fin 0" "Fin 0 * Fin a = Fin 0"
  by simp_all

lemma fin_self_minus [simp]: "Fin a - Fin a = Fin 0"
  by (simp add: minus_pyfloat_def)

lemma in_range_signed_inf [simp]: "in_range (signed_inf s)"
  by (auto simp: signed_inf_def)

lemma in_range_times [simp]: "in_range (a * b)"
  by (cases a; cases b) simp_all

lemma in_range_plus [simp]: "in_range (a + b)"
  by (cases a; cases b) simp_all

lemma in_range_minus [simp]: "in_range (a - b)"
  by (simp add: minus_pyfloat_def)

lemma in_range_divide [simp]: "in_range (a / b)"
  by (cases a; cases b) simp_all

lemma zero_plus: "in_range a \<Longrightarrow> Fin 0 + a = a"
  by (cases a) (simp_all add: round_double_exact)

lemma minus_zero: "in_range a \<Longrightarrow> a - Fin 0 = a"
  by (cases a) (simp_all add: minus_pyfloat_def round_double_exact)

lemma zero_minus: "in_range a \<Longrightarrow> Fin 0 - a = - a"
  using in_range_uminus[of a]
  by (cases a) (simp_all add: minus_pyfloat_def round_double_exact del: in_range_uminus)

lemma times_one: "in_range a \<Longrightarrow> a * Fin 1 = a" "in_range a \<Longrightarrow> Fin 1 * a = a"
  by (cases a; simp add: round_double_exact signed_inf_def)+

lemma divide_one: "in_range a \<Longrightarrow> a / Fin 1 = a"
  by (cases a) (simp_all add: round_double_exact signed_inf_def)

lemma plus_commute: "a + b = b + (a :: pyfloat)"
  by (cases a; cases b) (simp_all add: add.commute)

lemma times_NaN [simp]: "a * NaN = NaN" "NaN * a = NaN"
  by (cases a; simp)+

lemma plus_NaN [simp]: "a + NaN = NaN" "NaN + a = NaN"
  by (cases a; simp)+

lemma minus_NaN [simp]: "a - NaN = NaN" "NaN - a = NaN"
  by (simp_all add: minus_pyfloat_def)

lemma divide_NaN [simp]: "a / NaN = NaN" "NaN / a = NaN"
  by (cases a; simp)+

lemma in_range_abs [simp]: "in_range (Fin \<bar>x\<bar>) = in_range (Fin x)"
  by (cases "0 \<le> x") (simp_all add: abs_if)

lemma one_plus_nonzero: "0 \<le> rr \<Longrightarrow> Fin 1 + Fin rr \<noteq> Fin 0"
  using round_double_above[of 1 "1 + rr"] by auto

lemma literal_between:
  "0 \<le> x \<Longrightarrow> x \<le> 1 \<Longrightarrow> \<exists>y. round_double x = Fin y \<and> 0 \<le> y \<and> y \<le> 1"
  using round_double_between[of 0 1 x] by simp

text \<open>Finite operations on bounded numbers.\<close>

lemma times_bounded:
  assumes "\<bar>a\<bar> \<le> A" "\<bar>b\<bar> \<le> B" "in_range (Fin (A * B))"
  shows "\<exists>c. Fin a * Fin b = Fin c \<and> \<bar>c\<bar> \<le> A * B"
proof -
  have "\<bar>a\<bar> * \<bar>b\<bar> \<le> A * B" using assms(1,2) by (intro mult_mono) simp_all
  then have "\<bar>a * b\<bar> \<le> A * B" by (simp add: abs_mult)
  from round_double_bounded[OF this assms(3)] show ?thesis by simp
qed

lemma minus_bounded:
  assumes "\<bar>a - b\<bar> \<le> B" "in_range (Fin B)"
  shows "\<exists>c. Fin a - Fin b = Fin c \<and> \<bar>c\<bar> \<le> B"
  using round_double_bounded[OF assms] by (simp add: minus_pyfloat_def)

text \<open>The comparisons and the clipping.\<close>

lemma less_NaN [simp]: "\<not> a < NaN" "\<not> NaN < a"
  by (cases a; simp)+

lemma nonneg_cases: "Fin 0 \<le> d \<Longrightarrow> (\<exists>r. d = Fin r \<and> 0 \<le> r) \<or> d = PInf"
  by (cases d) (auto simp: less_eq_pyfloat_def)

lemma py_max_NaN [simp]: "py_max NaN b = NaN"
  by (simp add: py_max_def)

lemma py_min_NaN [simp]: "py_min NaN b = NaN"
  by (simp add: py_min_def)

lemma clip_number:
  assumes "x \<noteq> NaN" "lo \<le> hi"
  shows "\<exists>r. py_min (py_max x (Fin lo)) (Fin hi) = Fin r \<and> lo \<le> r \<and> r \<le> hi"
  using assms by (cases x) (auto simp: py_max_def py_min_def)

lemma clip_inside:
  "lo \<le> x \<Longrightarrow> x \<le> hi \<Longrightarrow> py_min (py_max (Fin x) (Fin lo)) (Fin hi) = Fin x"
  by (simp add: py_max_def py_min_def)

lemma clip_above:
  "lo \<le> hi \<Longrightarrow> Fin hi < x \<Longrightarrow> py_min (py_max x (Fin lo)) (Fin hi) = Fin hi"
  by (cases x) (auto simp: py_max_def py_min_def)

lemma hclip_NaN [simp]: "hclip NaN = NaN"
  by (simp add: hclip_def)

lemma pclip_NaN [simp]: "pclip NaN = NaN"
  by (simp add: pclip_def)

text \<open>The constants of the program.\<close>

lemma float_of_int_exact: "\<bar>i\<bar> < 2 ^ 53 \<Longrightarrow> float_of_int i = Fin (of_int i)"
  unfolding float_of_int_def by (intro round_double_exact in_range_of_int)

lemma float_of_int_one [simp]: "float_of_int 1 = Fin 1"
  using float_of_int_exact[of 1] by simp

lemma min_half_life: "\<exists>mn. MIN_HALF_LIFE = Fin mn \<and> 1 / 2 ^ 7 \<le> mn \<and> mn \<le> 1 / 2 ^ 6"
proof -
  have "float_of_int (24 * 60) = Fin 1440" using float_of_int_exact[of 1440] by simp
  then have m: "MIN_HALF_LIFE = round_double (15 / 1440)" by (simp add: MIN_HALF_LIFE_def)
  show ?thesis unfolding m
    by (rule round_double_between) (simp_all only: in_range_inverse_power, simp_all)
qed

lemma recall_floor: "\<exists>lo. round_double 0.0001 = Fin lo \<and> 1 / 2 ^ 14 \<le> lo \<and> lo \<le> 1 / 2 ^ 13"
  by (rule round_double_between) (simp_all only: in_range_inverse_power, simp_all)

lemma recall_ceiling: "\<exists>hi. round_double 0.9999 = Fin hi \<and> 1 / 2 \<le> hi \<and> hi < 1"
proof -
  have "in_range (Fin (of_int 16383 * 2 powr of_int (- 14)))"
    by (rule in_range_scaled) simp_all
  then have r: "in_range (Fin (16383 / 16384))" by (simp add: powr_minus_divide)
  from round_double_between[OF in_range_half(1) r, of "0.9999"] show ?thesis by auto
qed

lemma ln2_bounds: "1 / 2 \<le> ln (2::real)" "ln (2::real) \<le> 1"
proof -
  have "exp (1 / 2 :: real) * exp (1 / 2) = exp 1" by (simp add: exp_add[symmetric])
  also have "\<dots> \<le> 2 * 2" using exp_le by simp
  finally have "(exp (1 / 2 :: real))\<^sup>2 \<le> 2\<^sup>2" by (simp add: power2_eq_square)
  then have "exp (1 / 2 :: real) \<le> 2" by (rule power2_le_imp_le) simp
  then show "1 / 2 \<le> ln (2::real)" using ln_ge_iff[of 2 "1 / 2"] by simp
  show "ln (2::real) \<le> 1" using ln_2_less_1 by simp
qed

lemma LN2_value: "\<exists>l. LN2 = Fin l \<and> 1 / 2 \<le> l \<and> l \<le> 1"
  unfolding LN2_def using round_double_between[of "1 / 2" 1 "ln 2"] ln2_bounds by simp

lemma hclip_number:
  "x \<noteq> NaN \<Longrightarrow> \<exists>r. hclip x = Fin r \<and> 1 / 2 ^ 7 \<le> r \<and> r \<le> 274"
proof -
  assume x: "x \<noteq> NaN"
  obtain mn where mn: "MIN_HALF_LIFE = Fin mn" "1 / 2 ^ 7 \<le> mn" "mn \<le> 1 / 2 ^ 6"
    using min_half_life by blast
  have "mn \<le> 274" using mn(3) by simp
  from clip_number[OF x this] mn(2) show ?thesis
    by (auto simp: hclip_def mn(1) MAX_HALF_LIFE_def)
qed

lemma pclip_number:
  "x \<noteq> NaN \<Longrightarrow> \<exists>r. pclip x = Fin r \<and> 1 / 2 ^ 14 \<le> r \<and> r < 1"
proof -
  assume x: "x \<noteq> NaN"
  obtain lo where lo: "round_double 0.0001 = Fin lo" "1 / 2 ^ 14 \<le> lo" "lo \<le> 1 / 2 ^ 13"
    using recall_floor by blast
  obtain hi where hi: "round_double 0.9999 = Fin hi" "1 / 2 \<le> hi" "hi < 1"
    using recall_ceiling by blast
  have "lo \<le> hi" using lo(3) hi(2) by simp
  from clip_number[OF x this] lo(2) hi(3) show ?thesis
    unfolding pclip_def lo(1) hi(1) by auto
qed

lemma hclip_inside: "1 / 2 ^ 6 \<le> x \<Longrightarrow> x \<le> 274 \<Longrightarrow> hclip (Fin x) = Fin x"
proof -
  assume x: "1 / 2 ^ 6 \<le> x" "x \<le> 274"
  obtain mn where mn: "MIN_HALF_LIFE = Fin mn" "1 / 2 ^ 7 \<le> mn" "mn \<le> 1 / 2 ^ 6"
    using min_half_life by blast
  show ?thesis unfolding hclip_def mn(1) MAX_HALF_LIFE_def
    using x mn(3) by (intro clip_inside) simp_all
qed

lemma hclip_one: "hclip (Fin 1) = Fin 1"
  by (rule hclip_inside) simp_all

lemma hclip_PInf: "hclip PInf = Fin 274"
proof -
  obtain mn where mn: "MIN_HALF_LIFE = Fin mn" "1 / 2 ^ 7 \<le> mn" "mn \<le> 1 / 2 ^ 6"
    using min_half_life by blast
  show ?thesis unfolding hclip_def mn(1) MAX_HALF_LIFE_def
    using mn(3) by (intro clip_above) simp_all
qed

lemma pclip_inside: "1 / 2 ^ 13 \<le> x \<Longrightarrow> x \<le> 1 / 2 \<Longrightarrow> pclip (Fin x) = Fin x"
proof -
  assume x: "1 / 2 ^ 13 \<le> x" "x \<le> 1 / 2"
  obtain lo where lo: "round_double 0.0001 = Fin lo" "1 / 2 ^ 14 \<le> lo" "lo \<le> 1 / 2 ^ 13"
    using recall_floor by blast
  obtain hi where hi: "round_double 0.9999 = Fin hi" "1 / 2 \<le> hi" "hi < 1"
    using recall_ceiling by blast
  show ?thesis unfolding pclip_def lo(1) hi(1)
    using x lo(3) hi(2) by (intro clip_inside) simp_all
qed

lemma pclip_one: "pclip (Fin 1) = round_double 0.9999"
proof -
  obtain lo where lo: "round_double 0.0001 = Fin lo" "1 / 2 ^ 14 \<le> lo" "lo \<le> 1 / 2 ^ 13"
    using recall_floor by blast
  obtain hi where hi: "round_double 0.9999 = Fin hi" "1 / 2 \<le> hi" "hi < 1"
    using recall_ceiling by blast
  show ?thesis unfolding pclip_def lo(1) hi(1)
    using lo(3) hi(2,3) by (intro clip_above) simp_all
qed

text \<open>With no time elapsed the recall coefficient is zero.\<close>

lemma dlp_zero:
  assumes "0 \<le> pr" "pr \<le> 1" "0 \<le> rr" "rr \<le> 1" "hr \<noteq> 0"
  shows "Fin 2 * (Fin pr - Fin rr) * (LN2 * LN2) * Fin pr * (Fin 0 / Fin hr) = Fin 0"
proof -
  obtain l where l: "LN2 = Fin l" "1 / 2 \<le> l" "l \<le> 1" using LN2_value by blast
  have "\<bar>pr - rr\<bar> \<le> 1" using assms by (simp add: abs_le_iff)
  from minus_bounded[OF this] obtain d1 where
    1: "Fin pr - Fin rr = Fin d1" "\<bar>d1\<bar> \<le> 1" by auto
  from times_bounded[of 2 2 d1 1] 1(2) obtain d2 where
    2: "Fin 2 * Fin d1 = Fin d2" "\<bar>d2\<bar> \<le> 2" by auto
  from times_bounded[of l 1 l 1] l(2,3) obtain d3 where
    3: "Fin l * Fin l = Fin d3" "\<bar>d3\<bar> \<le> 1" by auto
  from times_bounded[of d2 2 d3 1] 2(2) 3(2) obtain d4 where
    4: "Fin d2 * Fin d3 = Fin d4" "\<bar>d4\<bar> \<le> 2" by auto
  from times_bounded[of d4 2 pr 1] 4(2) assms(1,2) obtain d5 where
    5: "Fin d4 * Fin pr = Fin d5" by auto
  have 6: "Fin 0 / Fin hr = Fin 0" using assms(5) by simp
  show ?thesis by (simp only: l(1) 1 2 3 4 5 6 fin_times_zero)
qed

text \<open>When the observed half-life is the predicted one, the half-life coefficient is
  zero.\<close>

lemma dlh_zero: "Fin 2 * (Fin hr - Fin hr) * LN2 * Fin hr = Fin 0"
proof -
  obtain l where l: "LN2 = Fin l" using LN2_value by blast
  show ?thesis by (simp add: l)
qed

text \<open>The powers of two, which is all that \<open>predict\<close> takes with the default base.\<close>

lemma py_pow_two:
  "py_pow (Fin 2) w =
     (case w of
        Fin e \<Rightarrow> (case round_double (2 powr e) of
                    Fin y \<Rightarrow> Inr (Fin y) | _ \<Rightarrow> Inl OverflowError)
      | PInf \<Rightarrow> Inr PInf
      | NInf \<Rightarrow> Inr (Fin 0)
      | NaN \<Rightarrow> Inr NaN)"
  by (cases w) (auto simp: py_pow.simps round_double_exact split: pyfloat.splits)

lemma py_pow_two_number: "w \<noteq> NaN \<Longrightarrow> py_pow (Fin 2) w = Inr v \<Longrightarrow> v \<noteq> NaN"
  by (cases w) (auto simp: py_pow_two split: pyfloat.splits)

lemma py_pow_two_error: "py_pow (Fin 2) w = Inl e \<Longrightarrow> e = OverflowError \<and> w \<noteq> NaN"
  by (cases w) (auto simp: py_pow_two split: pyfloat.splits)

lemma two_powr_nonpos: "e \<le> 0 \<Longrightarrow> 2 powr e \<le> (1::real)"
proof -
  assume "e \<le> 0"
  then have "2 powr e \<le> 2 powr (0::real)" by (subst powr_le_cancel_iff) simp_all
  then show ?thesis by simp
qed

lemma py_pow_two_nonpos:
  "e \<le> 0 \<Longrightarrow> \<exists>y. py_pow (Fin 2) (Fin e) = Inr (Fin y) \<and> 0 \<le> y \<and> y \<le> 1"
  using round_double_between[of 0 1 "2 powr e"] two_powr_nonpos[of e]
  by (auto simp: py_pow_two)

lemma py_pow_two_exact:
  "in_range (Fin (2 powr e)) \<Longrightarrow> py_pow (Fin 2) (Fin e) = Inr (Fin (2 powr e))"
  by (simp add: py_pow_two round_double_exact)

lemma py_pow_two_zero: "py_pow (Fin 2) (Fin 0) = Inr (Fin 1)"
  by (simp add: py_pow.simps)

lemma py_pow_two_minus_one: "py_pow (Fin 2) (Fin (- 1)) = Inr (Fin (1 / 2))"
  using py_pow_two_exact[of "- 1"] by (simp add: powr_minus_divide)

lemma py_pow_one_two: "py_pow (Fin 1) (Fin 2) = Inr (Fin 1)"
  by (simp add: py_pow.simps)

lemma divide_minus_one: "py_div (- Fin 1) (Fin 1) = Inr (Fin (- 1))"
  by (simp add: py_div_def round_double_exact)

subsection \<open>Rounding, overflow and underflow at work\<close>

text \<open>A power below half the smallest subnormal double is zero; the largest double plus
  one is the largest double; \<open>2^53 + 1\<close> lies halfway between two doubles and goes to
  the even one, \<open>2^53\<close>.\<close>

lemma rhe_down: "of_int z \<le> m \<Longrightarrow> m < of_int z + 1 / 2 \<Longrightarrow> round_half_even m = z"
proof -
  assume a: "of_int z \<le> m" "m < of_int z + 1 / 2"
  then have "\<lfloor>m\<rfloor> = z" by linarith
  then show ?thesis using a by (simp add: round_half_even_def)
qed

lemma round_double_underflow:
  assumes "\<bar>x\<bar> < 2 powr (- 1075)"
  shows "round_double x = Fin 0"
proof (cases "x = 0")
  case True
  then show ?thesis by simp
next
  case False
  have "(2::real) powr (- 1075) \<le> 2 powr (- 1022)" by (intro powr_mono) simp_all
  then have "\<bar>x\<bar> \<le> 2 powr (- 1022)" using assms by linarith
  with False have b: "binade x = - 1022" by (rule binade_small)
  have u: "ulp x = 2 powr (- 1074)" by (simp add: ulp_def b)
  have "\<bar>x\<bar> / 2 powr (- 1074) < 2 powr (- 1075) / 2 powr (- 1074)"
    using assms by (intro divide_strict_right_mono) simp_all
  also have "\<dots> = 2 powr (- 1)" by (simp only: powr_diff[symmetric]) simp
  finally have "\<bar>x\<bar> / ulp x < 1 / 2" unfolding u by (simp add: powr_minus_divide)
  moreover have "0 \<le> \<bar>x\<bar> / ulp x" by (simp add: divide_nonneg_pos)
  ultimately have "round_half_even (\<bar>x\<bar> / ulp x) = 0" by (intro rhe_down) simp_all
  then have "round_magnitude x = 0" by (simp add: round_magnitude_def)
  then show ?thesis using FLOAT_MAX_pos(1) by (simp add: round_double_def)
qed

lemma pow_underflow:
  assumes "0 < a" "a < 1" "w \<noteq> 0" "a powr w < 2 powr (- 1075)"
  shows "py_pow (Fin a) (Fin w) = Inr (Fin 0)"
proof -
  have "round_double (\<bar>a\<bar> powr w) = Fin 0"
    using assms(1,4) by (intro round_double_underflow) simp
  then show ?thesis using assms(1-3) by (simp add: py_pow.simps)
qed

lemma square_underflows: "py_pow (Fin (2 powr (- 600))) (Fin 2) = Inr (Fin 0)"
proof (rule pow_underflow)
  show "0 < (2::real) powr (- 600)" by (simp only: powr_gt_zero)
  have "(2::real) powr (- 600) < 2 powr 0" by (rule powr_less_mono) simp_all
  then show "(2::real) powr (- 600) < 1" by (simp only: powr_zero_eq_one) simp
  show "(2::real) \<noteq> 0" by simp
  have "((2::real) powr (- 600)) powr 2 = 2 powr (- 600 * 2)" by (rule powr_powr)
  also have "\<dots> < 2 powr (- 1075)" by (rule powr_less_mono) simp_all
  finally show "((2::real) powr (- 600)) powr 2 < 2 powr (- 1075)" .
qed

lemma max_plus_one: "Fin FLOAT_MAX + Fin 1 = Fin FLOAT_MAX"
proof -
  define x where "x = FLOAT_MAX + 1"
  have b: "binade x = 1023"
    unfolding x_def FLOAT_MAX_def by (rule binade_unique) simp_all
  have u: "ulp x = 2 ^ 971" using b by (simp add: ulp_def)
  have "round_half_even (\<bar>x\<bar> / ulp x) = 2 ^ 53 - 1"
    unfolding u unfolding x_def FLOAT_MAX_def by (rule rhe_down) simp_all
  then have "round_magnitude x = FLOAT_MAX"
    unfolding round_magnitude_def u by (simp add: FLOAT_MAX_def)
  moreover have "sgn x = 1" using FLOAT_MAX_pos(1) by (simp add: x_def)
  ultimately have "round_double x = Fin FLOAT_MAX" by (simp add: round_double_def)
  then show ?thesis by (simp add: x_def)
qed

lemma round_double_tie: "round_double (2 ^ 53 + 1) = Fin (2 ^ 53)"
proof -
  have b: "binade (2 ^ 53 + 1) = 53"
    by (rule binade_unique) simp_all
  have u: "ulp (2 ^ 53 + 1) = 2" using b by (simp add: ulp_def)
  have "round_half_even (\<bar>2 ^ 53 + 1\<bar> / ulp (2 ^ 53 + 1)) = 2 ^ 52"
    unfolding u by (simp add: round_half_even_def)
  then have "round_magnitude (2 ^ 53 + 1) = 2 ^ 53"
    unfolding round_magnitude_def u by simp
  then show ?thesis using FLOAT_MAX_large by (simp add: round_double_def)
qed

section \<open>Facts about the dictionaries\<close>

lemma dd_get_eq: "dd_get dflt d k = (get_or dflt d k, d(k \<mapsto> get_or dflt d k))"
  by (auto simp: dd_get_def get_or_def split: option.splits)

lemma get_or_upd: "get_or dflt (d(k \<mapsto> v)) k' = (if k' = k then v else get_or dflt d k')"
  by (simp add: get_or_def)

lemma get_or_touched: "get_or dflt (touched d dflt ks) k = get_or dflt d k"
  by (simp add: touched_def get_or_def)

text \<open>The dot product is a left fold over the pairs, and its reads store the default
  for every name of the vector that the dictionary does not hold.\<close>

lemma dp_sum_eq:
  "dp_sum ws fs acc =
     (foldl (\<lambda>a (k, x). a + get_or (Fin 0) ws k * x) acc fs,
      touched ws (Fin 0) (fst ` set fs))"
proof (induction fs arbitrary: ws acc)
  case Nil
  show ?case by (simp add: touched_def)
next
  case (Cons a fs)
  obtain k x where a: "a = (k, x)" by (cases a)
  let ?ws' = "ws(k \<mapsto> get_or (Fin 0) ws k)"
  have g: "\<And>k'. get_or (Fin 0) ?ws' k' = get_or (Fin 0) ws k'"
    by (simp add: get_or_def)
  have t: "touched ?ws' (Fin 0) (fst ` set fs) = touched ws (Fin 0) (insert k (fst ` set fs))"
    by (auto simp: touched_def get_or_def fun_eq_iff split: option.splits)
  show ?case
    by (simp add: a dd_get_eq Cons.IH g t)
qed


section \<open>Prediction\<close>

lemma halflife_two:
  "\<exists>h. halflife m fs (Fin 2) = Inr (h, m\<lparr>weights := snd (dp_sum (weights m) fs (Fin 0))\<rparr>)
       \<and> (if fst (dp_sum (weights m) fs (Fin 0)) = NaN then h = NaN
           else \<exists>r. h = Fin r \<and> 1 / 2 ^ 7 \<le> r \<and> r \<le> 274)"
proof -
  obtain dp ws where d: "dp_sum (weights m) fs (Fin 0) = (dp, ws)"
    by (cases "dp_sum (weights m) fs (Fin 0)")
  show ?thesis
  proof (cases "py_pow (Fin 2) dp")
    case (Inl e)
    then have "e = OverflowError" "dp \<noteq> NaN"
      using py_pow_two_error by blast+
    then show ?thesis using Inl d by (simp add: halflife_def MAX_HALF_LIFE_def)
  next
    case (Inr v)
    show ?thesis
    proof (cases "dp = NaN")
      case True
      then have "v = NaN" using Inr by (simp add: py_pow_two)
      then show ?thesis using Inr d True by (simp add: halflife_def)
    next
      case False
      then have "v \<noteq> NaN" using Inr py_pow_two_number by blast
      then show ?thesis using Inr d False hclip_number[of v] by (simp add: halflife_def)
    qed
  qed
qed

text \<open>Whatever the base, a half-life that \<open>halflife\<close> returns is NaN or lies between the
  two bounds.\<close>

lemma halflife_result:
  assumes "halflife m fs base = Inr (h, m')"
  shows "m' = m\<lparr>weights := snd (dp_sum (weights m) fs (Fin 0))\<rparr>
         \<and> (h = NaN \<or> (\<exists>r. h = Fin r \<and> 1 / 2 ^ 7 \<le> r \<and> r \<le> 274))"
proof -
  obtain dp ws where d: "dp_sum (weights m) fs (Fin 0) = (dp, ws)"
    by (cases "dp_sum (weights m) fs (Fin 0)")
  show ?thesis
  proof (cases "py_pow base dp")
    case (Inl e)
    then show ?thesis using assms d
      by (cases e) (auto simp: halflife_def MAX_HALF_LIFE_def)
  next
    case (Inr v)
    then show ?thesis using assms d hclip_number[of v]
      by (cases "v = NaN") (auto simp: halflife_def)
  qed
qed

text \<open>For a non-negative elapsed time neither the division by the half-life nor the
  power of two raises, and the power is NaN exactly when the half-life is.\<close>

lemma recall_power:
  assumes "Fin 0 \<le> d" "h = NaN \<or> (\<exists>r. h = Fin r \<and> 0 < r)"
  shows "py_div (- d) h = Inr (- d / h)
         \<and> (\<exists>p0. py_pow (Fin 2) (- d / h) = Inr p0 \<and> (p0 = NaN \<longleftrightarrow> h = NaN))"
proof -
  from assms(2) show ?thesis
  proof
    assume "h = NaN"
    then show ?thesis using nonneg_cases[OF assms(1)] by (auto simp: py_div_def py_pow_two)
  next
    assume "\<exists>r. h = Fin r \<and> 0 < r"
    then obtain r where h: "h = Fin r" "0 < r" by blast
    from nonneg_cases[OF assms(1)] show ?thesis
    proof
      assume "\<exists>dr. d = Fin dr \<and> 0 \<le> dr"
      then obtain dr where d: "d = Fin dr" "0 \<le> dr" by blast
      have q: "- dr / r \<le> 0" using d h by (simp add: divide_nonpos_pos)
      have dv: "- d / h = round_double (- dr / r)" using h d by simp
      from round_double_sign(2)[OF q] show ?thesis
      proof
        assume "round_double (- dr / r) = NInf"
        then show ?thesis using h dv by (simp add: py_div_def py_pow_two)
      next
        assume "\<exists>y. round_double (- dr / r) = Fin y \<and> y \<le> 0"
        then obtain y where y: "round_double (- dr / r) = Fin y" "y \<le> 0" by blast
        from py_pow_two_nonpos[OF y(2)] show ?thesis using h dv y(1) by (auto simp: py_div_def)
      qed
    next
      assume "d = PInf"
      then show ?thesis using h by (simp add: py_div_def signed_inf_def py_pow_two)
    qed
  qed
qed

lemma predict_after_halflife:
  assumes "halflife m fs base = Inr (h, m')" "Fin 0 \<le> d"
  shows "\<exists>p0. py_pow (Fin 2) (- d / h) = Inr p0 \<and> (p0 = NaN \<longleftrightarrow> h = NaN)
              \<and> predict m fs d base = Inr ((pclip p0, h), m')"
proof -
  have "h = NaN \<or> (\<exists>r. h = Fin r \<and> 0 < r)"
    using halflife_result[OF assms(1)] by fastforce
  from recall_power[OF assms(2) this] obtain p0 where
    p: "py_div (- d) h = Inr (- d / h)" "py_pow (Fin 2) (- d / h) = Inr p0" "p0 = NaN \<longleftrightarrow> h = NaN"
    by blast
  have "predict m fs d base = Inr ((pclip p0, h), m')"
    unfolding predict_def and_then_def by (simp only: assms(1) p sum.case prod.case)
  then show ?thesis using p by blast
qed

text \<open>
  With the default base and a non-negative elapsed time \<open>predict\<close> never raises. Its
  two results lie between the clipping bounds unless the dot product is NaN, and then
  both are NaN.
\<close>

lemma predict_two:
  assumes "Fin 0 \<le> d"
  shows "\<exists>p h. predict m fs d (Fin 2) =
                  Inr ((p, h), m\<lparr>weights := snd (dp_sum (weights m) fs (Fin 0))\<rparr>)
           \<and> (if fst (dp_sum (weights m) fs (Fin 0)) = NaN then p = NaN \<and> h = NaN
               else (\<exists>r. p = Fin r \<and> 1 / 2 ^ 14 \<le> r \<and> r < 1)
                  \<and> (\<exists>r. h = Fin r \<and> 1 / 2 ^ 7 \<le> r \<and> r \<le> 274))"
proof -
  from halflife_two[of m fs] obtain h where
    h: "halflife m fs (Fin 2) = Inr (h, m\<lparr>weights := snd (dp_sum (weights m) fs (Fin 0))\<rparr>)"
       "if fst (dp_sum (weights m) fs (Fin 0)) = NaN then h = NaN
        else \<exists>r. h = Fin r \<and> 1 / 2 ^ 7 \<le> r \<and> r \<le> 274"
    by blast
  from predict_after_halflife[OF h(1) assms] obtain p0 where
    p: "p0 = NaN \<longleftrightarrow> h = NaN"
       "predict m fs d (Fin 2) =
          Inr ((pclip p0, h), m\<lparr>weights := snd (dp_sum (weights m) fs (Fin 0))\<rparr>)"
    by blast
  show ?thesis
  proof (cases "fst (dp_sum (weights m) fs (Fin 0)) = NaN")
    case True
    then show ?thesis using h(2) p by simp
  next
    case False
    then have "p0 \<noteq> NaN" using h(2) p(1) by auto
    then show ?thesis using False h(2) p(2) pclip_number[of p0] by simp
  qed
qed

text \<open>The same with the clipping bounds of the program: where the dot product is a
  number, the recall lies between the doubles \<open>0.0001\<close> and \<open>0.9999\<close> and the half-life
  between \<open>MIN_HALF_LIFE\<close> and \<open>MAX_HALF_LIFE\<close>.\<close>

lemma clip_between:
  assumes "x \<noteq> NaN" "lo \<le> hi"
  shows "Fin lo \<le> py_min (py_max x (Fin lo)) (Fin hi)
         \<and> py_min (py_max x (Fin lo)) (Fin hi) \<le> Fin hi"
  using clip_number[OF assms] by (auto simp: less_eq_pyfloat_def)

lemma hclip_between:
  assumes "x \<noteq> NaN"
  shows "MIN_HALF_LIFE \<le> hclip x \<and> hclip x \<le> MAX_HALF_LIFE"
proof -
  obtain mn where mn: "MIN_HALF_LIFE = Fin mn" "1 / 2 ^ 7 \<le> mn" "mn \<le> 1 / 2 ^ 6"
    using min_half_life by blast
  have "mn \<le> 274" using mn(3) by simp
  from clip_between[OF assms this] show ?thesis
    unfolding hclip_def mn(1) MAX_HALF_LIFE_def .
qed

lemma pclip_between:
  assumes "x \<noteq> NaN"
  shows "round_double 0.0001 \<le> pclip x \<and> pclip x \<le> round_double 0.9999"
proof -
  obtain lo where lo: "round_double 0.0001 = Fin lo" "1 / 2 ^ 14 \<le> lo" "lo \<le> 1 / 2 ^ 13"
    using recall_floor by blast
  obtain hi where hi: "round_double 0.9999 = Fin hi" "1 / 2 \<le> hi" "hi < 1"
    using recall_ceiling by blast
  have "lo \<le> hi" using lo(3) hi(2) by simp
  from clip_between[OF assms this] show ?thesis
    unfolding pclip_def lo(1) hi(1) .
qed

lemma predict_in_range:
  assumes "Fin 0 \<le> d" "fst (dp_sum (weights m) fs (Fin 0)) \<noteq> NaN"
  shows "\<exists>p h. predict m fs d (Fin 2) =
                  Inr ((p, h), m\<lparr>weights := snd (dp_sum (weights m) fs (Fin 0))\<rparr>)
           \<and> round_double 0.0001 \<le> p \<and> p \<le> round_double 0.9999
           \<and> MIN_HALF_LIFE \<le> h \<and> h \<le> MAX_HALF_LIFE"
proof -
  obtain dp ws where d: "dp_sum (weights m) fs (Fin 0) = (dp, ws)"
    by (cases "dp_sum (weights m) fs (Fin 0)")
  have dn: "dp \<noteq> NaN" using assms(2) d by simp
  have "\<exists>h. halflife m fs (Fin 2) = Inr (h, m\<lparr>weights := ws\<rparr>)
           \<and> h \<noteq> NaN \<and> MIN_HALF_LIFE \<le> h \<and> h \<le> MAX_HALF_LIFE"
  proof (cases "py_pow (Fin 2) dp")
    case (Inl e)
    then have e: "e = OverflowError" using py_pow_two_error by blast
    obtain mn where mn: "MIN_HALF_LIFE = Fin mn" "1 / 2 ^ 7 \<le> mn" "mn \<le> 1 / 2 ^ 6"
      using min_half_life by blast
    have "MIN_HALF_LIFE \<le> MAX_HALF_LIFE \<and> MAX_HALF_LIFE \<le> MAX_HALF_LIFE"
      unfolding mn(1) MAX_HALF_LIFE_def using mn(3) by (simp add: less_eq_pyfloat_def)
    then show ?thesis using Inl e d by (simp add: halflife_def MAX_HALF_LIFE_def)
  next
    case (Inr v)
    then have v: "v \<noteq> NaN" using dn py_pow_two_number by blast
    then have "hclip v \<noteq> NaN" using hclip_number[of v] by auto
    then show ?thesis using Inr d hclip_between[OF v] by (simp add: halflife_def)
  qed
  then obtain h where h: "halflife m fs (Fin 2) = Inr (h, m\<lparr>weights := ws\<rparr>)"
    "h \<noteq> NaN" "MIN_HALF_LIFE \<le> h" "h \<le> MAX_HALF_LIFE" by blast
  from predict_after_halflife[OF h(1) assms(1)] obtain p0 where
    p: "p0 \<noteq> NaN" "predict m fs d (Fin 2) = Inr ((pclip p0, h), m\<lparr>weights := ws\<rparr>)"
    using h(2) by blast
  show ?thesis using p(2) pclip_between[OF p(1)] h(3,4) d by simp
qed

text \<open>Stepping through \<open>halflife\<close> and \<open>predict\<close> at given intermediate values.\<close>

lemma halflife_step:
  assumes "dp_sum (weights m) fs (Fin 0) = (dp, ws)" "py_pow base dp = Inr v"
  shows "halflife m fs base = Inr (hclip v, m\<lparr>weights := ws\<rparr>)"
  using assms by (simp add: halflife_def)

lemma predict_step:
  assumes "halflife m fs base = Inr (h, m')" "py_div (- d) h = Inr q"
    "py_pow (Fin 2) q = Inr p0"
  shows "predict m fs d base = Inr ((pclip p0, h), m')"
  unfolding predict_def and_then_def by (simp only: assms sum.case prod.case)

lemma default_model_weights: "weights default_model = Map.empty"
  by (simp add: default_model_def init_model_def)

lemma halflife_no_features: "halflife default_model [] (Fin 4) = Inr (Fin 1, default_model)"
  using halflife_step[of default_model "[]" "Fin 0" "weights default_model" "Fin 4" "Fin 1"]
  by (simp add: py_pow.simps hclip_one)

lemma predict_zero_elapsed:
  assumes "halflife m fs base = Inr (Fin r, m')" "r \<noteq> 0"
  shows "predict m fs (Fin 0) base = Inr ((round_double 0.9999, Fin r), m')"
proof -
  have dv: "py_div (- Fin 0) (Fin r) = Inr (Fin 0)"
    using assms(2) by (simp add: py_div_def)
  show ?thesis
    using predict_step[OF assms(1) dv py_pow_two_zero] by (simp only: pclip_one)
qed

lemma pclip_half: "pclip (Fin (1 / 2)) = Fin (1 / 2)"
  by (rule pclip_inside) simp_all

lemma predict_default_one_feature:
  "predict default_model [(k, Fin 1)] (Fin 1) (Fin 2)
     = Inr ((Fin (1 / 2), Fin 1), default_model\<lparr>weights := [k \<mapsto> Fin 0]\<rparr>)"
proof -
  have dp: "dp_sum (weights default_model) [(k, Fin 1)] (Fin 0) = (Fin 0, [k \<mapsto> Fin 0])"
    unfolding default_model_weights by (simp add: dd_get_def)
  have "halflife default_model [(k, Fin 1)] (Fin 2)
          = Inr (hclip (Fin 1), default_model\<lparr>weights := [k \<mapsto> Fin 0]\<rparr>)"
    by (rule halflife_step[OF dp]) (rule py_pow_two_zero)
  then have h: "halflife default_model [(k, Fin 1)] (Fin 2)
          = Inr (Fin 1, default_model\<lparr>weights := [k \<mapsto> Fin 0]\<rparr>)"
    by (simp only: hclip_one)
  show ?thesis
    using predict_step[OF h divide_minus_one py_pow_two_minus_one] by (simp only: pclip_half)
qed

subsection \<open>The range of the prediction\<close>

text \<open>
  C2. The claim: for every feature vector, any weights and every elapsed time \<open>\<ge> 0\<close>,
  \<open>predict\<close> returns a recall probability in \<open>[0.0001, 0.9999]\<close> and a half-life in
  \<open>[15/1440, 274]\<close>. The code at an input where it does not: with the weights
  \<open>2^600\<close> and \<open>-2^600\<close> and two feature values \<open>2^600\<close> the two products overflow to
  \<open>inf\<close> and \<open>-inf\<close>, their sum is NaN, \<open>2.0 ** NaN\<close> is NaN, and \<open>min\<close> and \<open>max\<close>
  let a NaN first argument through; \<open>predict\<close> returns \<open>(NaN, NaN)\<close>.
\<close>

theorem predict_nan_example:
  "predict (load_weights default_model [''a'' \<mapsto> Fin (2 ^ 600), ''b'' \<mapsto> Fin (- (2 ^ 600))])
       [(''a'', Fin (2 ^ 600)), (''b'', Fin (2 ^ 600))] (Fin 1) (Fin 2)
   = Inr ((NaN, NaN),
          load_weights default_model [''a'' \<mapsto> Fin (2 ^ 600), ''b'' \<mapsto> Fin (- (2 ^ 600))])"
proof -
  let ?w = "[''a'' \<mapsto> Fin (2 ^ 600), ''b'' \<mapsto> Fin (- (2 ^ 600))]"
  let ?m = "load_weights default_model ?w"
  have w: "weights ?m = ?w" by (simp add: load_weights_def)
  have dp: "dp_sum (weights ?m) [(''a'', Fin (2 ^ 600)), (''b'', Fin (2 ^ 600))] (Fin 0)
              = (NaN, weights ?m)"
    unfolding w by (simp add: dd_get_def round_double_PInf round_double_NInf)
  have "halflife ?m [(''a'', Fin (2 ^ 600)), (''b'', Fin (2 ^ 600))] (Fin 2)
          = Inr (hclip NaN, ?m\<lparr>weights := weights ?m\<rparr>)"
    by (rule halflife_step[OF dp]) (simp add: py_pow_two)
  then have h: "halflife ?m [(''a'', Fin (2 ^ 600)), (''b'', Fin (2 ^ 600))] (Fin 2)
          = Inr (NaN, ?m)"
    by simp
  have "predict ?m [(''a'', Fin (2 ^ 600)), (''b'', Fin (2 ^ 600))] (Fin 1) (Fin 2)
          = Inr ((pclip NaN, NaN), ?m)"
    by (rule predict_step[OF h, where q = NaN]) (simp_all add: py_div_def py_pow_two)
  then show ?thesis by simp
qed

subsection \<open>The effect of a prediction on the model\<close>

text \<open>
  C4. The claim: \<open>predict\<close> leaves the weight mapping, as \<open>get_weights\<close> shows it, and the
  count mapping exactly as they were, also for names never seen before. The code at
  an input where it does not: on the model with no weights, a prediction for a
  vector with the name \<open>unseen\<close> stores the weight 0.0 under that name, and
  \<open>get_weights\<close> then returns a mapping with one entry instead of none.
\<close>

theorem predict_stores_default_example:
  "predict default_model [(''unseen'', Fin 1)] (Fin 1) (Fin 2)
     = Inr ((Fin (1 / 2), Fin 1), default_model\<lparr>weights := [''unseen'' \<mapsto> Fin 0]\<rparr>)
   \<and> get_weights (default_model\<lparr>weights := [''unseen'' \<mapsto> Fin 0]\<rparr>) \<noteq> get_weights default_model"
proof -
  have "get_weights (default_model\<lparr>weights := [''unseen'' \<mapsto> Fin 0]\<rparr>)
     \<noteq> get_weights default_model"
    by (simp add: get_weights_def default_model_weights fun_eq_iff)
  then show ?thesis using predict_default_one_feature[of "''unseen''"] by simp
qed

subsection \<open>The base of the recall\<close>

text \<open>
  The claim C5 gives the recall as the clipped power \<open>base^(-elapsedDays / halfLife)\<close>
  with the base of the half-life computation. With no features, one day elapsed and
  base 4 the half-life is 1 day; \<open>predict\<close> returns the recall \<open>2^(-1) = 0.5\<close>, the
  claim's reading gives \<open>4^(-1) = 0.25\<close>.
\<close>

theorem predict_base_counterexample:
  "predict default_model [] (Fin 1) (Fin 4)
     \<noteq> predict_as_specified default_model [] (Fin 1) (Fin 4)"
proof -
  have "predict default_model [] (Fin 1) (Fin 4)
          = Inr ((pclip (Fin (1 / 2)), Fin 1), default_model)"
    by (rule predict_step[OF halflife_no_features divide_minus_one py_pow_two_minus_one])
  then have a: "predict default_model [] (Fin 1) (Fin 4) = Inr ((Fin (1 / 2), Fin 1), default_model)"
    by (simp only: pclip_half)
  have "4 powr (- 1) = (1 / 4 :: real)"
    by (simp add: powr_minus_divide)
  then have pw: "py_pow (Fin 4) (Fin (- 1)) = Inr (Fin (1 / 4))"
    by (simp add: py_pow.simps round_double_exact)
  have pc: "pclip (Fin (1 / 4)) = Fin (1 / 4)"
    by (rule pclip_inside) simp_all
  have b: "predict_as_specified default_model [] (Fin 1) (Fin 4)
          = Inr ((Fin (1 / 4), Fin 1), default_model)"
    unfolding predict_as_specified_def and_then_def
    by (simp only: halflife_no_features divide_minus_one pw sum.case prod.case pc)
  show ?thesis unfolding a b by simp
qed

text \<open>
  C5, amended. For every feature vector, every elapsed time \<open>\<ge> 0\<close> and every base for
  which \<open>halflife\<close> returns a half-life \<open>h\<close>, \<open>predict\<close> returns that half-life and the
  recall \<open>pclip(2.0 ** (-elapsedDays / h))\<close>: the base of the recall is always 2,
  whatever base the half-life was computed with, and neither the division nor the
  power raises.
\<close>

theorem predict_recall_base_two:
  assumes "Fin 0 \<le> d" "halflife m fs base = Inr (h, m')"
  shows "\<exists>p0. py_pow (Fin 2) (- d / h) = Inr p0
              \<and> predict m fs d base = Inr ((pclip p0, h), m')"
  using predict_after_halflife[OF assms(2) assms(1)] by blast

theorem predict_recall_base_two_witness:
  "Fin 0 \<le> Fin 1 \<and> halflife default_model [] (Fin 4) = Inr (Fin 1, default_model)
   \<and> (\<exists>p0. py_pow (Fin 2) (- Fin 1 / Fin 1) = Inr p0
            \<and> predict default_model [] (Fin 1) (Fin 4) = Inr ((pclip p0, Fin 1), default_model))"
proof -
  have d: "Fin 0 \<le> Fin 1" by (simp add: less_eq_pyfloat_def)
  show ?thesis
    using d halflife_no_features predict_recall_base_two[OF d halflife_no_features] by blast
qed


subsection \<open>The order of the pairs\<close>

lemma dp_sum_swap:
  "dp_sum ws [(k1, x1), (k2, x2)] (Fin 0) = dp_sum ws [(k2, x2), (k1, x1)] (Fin 0)"
  by (simp add: dp_sum_eq zero_plus plus_commute insert_commute)

lemma predict_cong:
  "dp_sum (weights m) fs (Fin 0) = dp_sum (weights m) fs' (Fin 0)
     \<Longrightarrow> predict m fs d base = predict m fs' d base"
  by (simp add: predict_def halflife_def)

text \<open>Where every addition is exact, the float sum is the sum of the products.\<close>

lemma exact_sums_fold:
  "exact_sums ws fs acc \<Longrightarrow>
     foldl (\<lambda>a (k, x). a + get_or (Fin 0) ws k * x) (Fin acc) fs
       = Fin (acc + sum_list (map (product_value ws) fs))"
proof (induction fs arbitrary: acc)
  case Nil
  show ?case by simp
next
  case (Cons a fs)
  obtain k x where a: "a = (k, x)" by (cases a)
  from Cons.prems obtain t where
    t: "get_or (Fin 0) ws k * x = Fin t" "in_range (Fin (acc + t))" "exact_sums ws fs (acc + t)"
    by (auto simp: a split: pyfloat.splits)
  have "Fin acc + Fin t = Fin (acc + t)" using t(2) by (rule fin_plus)
  then show ?case using Cons.IH[OF t(3)] by (simp add: a t(1) product_value_def add.assoc)
qed

lemma sum_list_permutation:
  fixes f :: "'a \<Rightarrow> real"
  assumes "mset fs = mset fs'"
  shows "sum_list (map f fs) = sum_list (map f fs')"
proof -
  have "sum_list (map f fs) = sum_mset (image_mset f (mset fs))"
    by (simp flip: mset_map sum_mset_sum_list)
  also have "\<dots> = sum_mset (image_mset f (mset fs'))" by (simp only: assms)
  also have "\<dots> = sum_list (map f fs')" by (simp flip: mset_map sum_mset_sum_list)
  finally show ?thesis .
qed

lemma predict_exact_sums:
  assumes "mset fs = mset fs'" "exact_sums (weights m) fs 0" "exact_sums (weights m) fs' 0"
  shows "predict m fs d base = predict m fs' d base"
proof -
  have "set fs = set fs'" using assms(1) by (metis set_mset_mset)
  then have "snd (dp_sum (weights m) fs (Fin 0)) = snd (dp_sum (weights m) fs' (Fin 0))"
    by (simp add: dp_sum_eq)
  moreover have "fst (dp_sum (weights m) fs (Fin 0)) = fst (dp_sum (weights m) fs' (Fin 0))"
    using exact_sums_fold[OF assms(2)] exact_sums_fold[OF assms(3)]
      sum_list_permutation[OF assms(1), of "product_value (weights m)"]
    by (simp add: dp_sum_eq)
  ultimately have "dp_sum (weights m) fs (Fin 0) = dp_sum (weights m) fs' (Fin 0)"
    by (simp add: prod_eq_iff)
  then show ?thesis by (rule predict_cong)
qed

text \<open>Two sums of the same three numbers: \<open>2^54 + 1\<close> lies between the neighbouring
  doubles \<open>2^54\<close> and \<open>2^54 + 4\<close> and rounds to the nearer one.\<close>

lemma round_double_example: "round_double (2 ^ 54 + 1) = Fin (2 ^ 54)"
proof -
  have b: "binade (2 ^ 54 + 1) = 54"
    by (rule binade_unique) simp_all
  have u: "ulp (2 ^ 54 + 1) = 4" using b by (simp add: ulp_def)
  have "round_half_even (\<bar>2 ^ 54 + 1\<bar> / ulp (2 ^ 54 + 1)) = 2 ^ 52"
    unfolding u by (simp add: round_half_even_def)
  then have "round_magnitude (2 ^ 54 + 1) = 2 ^ 54"
    unfolding round_magnitude_def u by simp
  then show ?thesis using FLOAT_MAX_large by (simp add: round_double_def)
qed

lemma hclip_two: "hclip (Fin 2) = Fin 2"
  by (rule hclip_inside) simp_all

lemma py_pow_two_one: "py_pow (Fin 2) (Fin 1) = Inr (Fin 2)"
  using py_pow_two_exact[of 1] by simp

text \<open>
  The claim C9 has \<open>predict\<close> return the same pair on every permutation of the feature
  vector. The sum is taken from left to right in floats, each addition rounded. With
  the weights \<open>2^1023\<close> for \<open>a\<close> and \<open>b\<close> and \<open>-2^1023\<close> for \<open>c\<close> and \<open>d\<close>, all values 1,
  the order \<open>a b c d\<close> overflows to \<open>inf\<close> at the second term and stays there (half-life
  274), the order \<open>a c b d\<close> sums to 0 (half-life 1). With the weights \<open>2^54\<close>, \<open>1\<close> and
  \<open>-2^54\<close> for \<open>a\<close>, \<open>b\<close> and \<open>c\<close>, all values 1, the order \<open>a b c\<close> loses the 1 to
  rounding and sums to 0 (half-life 1), the order \<open>a c b\<close> sums to 1 (half-life 2).
\<close>

theorem predict_order_counterexample:
  "mset [(''a'', Fin 1), (''c'', Fin 1), (''b'', Fin 1), (''d'', Fin 1)]
     = mset [(''a'', Fin 1), (''b'', Fin 1), (''c'', Fin 1), (''d'', Fin 1)]
   \<and> predict (load_weights default_model
          [''a'' \<mapsto> Fin (2 ^ 1023), ''b'' \<mapsto> Fin (2 ^ 1023),
           ''c'' \<mapsto> Fin (- (2 ^ 1023)), ''d'' \<mapsto> Fin (- (2 ^ 1023))])
        [(''a'', Fin 1), (''b'', Fin 1), (''c'', Fin 1), (''d'', Fin 1)] (Fin 0) (Fin 2)
     \<noteq> predict (load_weights default_model
          [''a'' \<mapsto> Fin (2 ^ 1023), ''b'' \<mapsto> Fin (2 ^ 1023),
           ''c'' \<mapsto> Fin (- (2 ^ 1023)), ''d'' \<mapsto> Fin (- (2 ^ 1023))])
        [(''a'', Fin 1), (''c'', Fin 1), (''b'', Fin 1), (''d'', Fin 1)] (Fin 0) (Fin 2)
   \<and> mset [(''a'', Fin 1), (''c'', Fin 1), (''b'', Fin 1)]
     = mset [(''a'', Fin 1), (''b'', Fin 1), (''c'', Fin 1)]
   \<and> predict (load_weights default_model
          [''a'' \<mapsto> Fin (2 ^ 54), ''b'' \<mapsto> Fin 1, ''c'' \<mapsto> Fin (- (2 ^ 54))])
        [(''a'', Fin 1), (''b'', Fin 1), (''c'', Fin 1)] (Fin 0) (Fin 2)
     \<noteq> predict (load_weights default_model
          [''a'' \<mapsto> Fin (2 ^ 54), ''b'' \<mapsto> Fin 1, ''c'' \<mapsto> Fin (- (2 ^ 54))])
        [(''a'', Fin 1), (''c'', Fin 1), (''b'', Fin 1)] (Fin 0) (Fin 2)"
proof -
  let ?w = "[''a'' \<mapsto> Fin (2 ^ 1023), ''b'' \<mapsto> Fin (2 ^ 1023),
             ''c'' \<mapsto> Fin (- (2 ^ 1023)), ''d'' \<mapsto> Fin (- (2 ^ 1023))]"
  let ?m = "load_weights default_model ?w"
  let ?fs1 = "[(''a'', Fin 1), (''b'', Fin 1), (''c'', Fin 1), (''d'', Fin 1)]"
  let ?fs2 = "[(''a'', Fin 1), (''c'', Fin 1), (''b'', Fin 1), (''d'', Fin 1)]"
  have w: "weights ?m = ?w" by (simp add: load_weights_def)
  note big = in_range_power[of 1023, simplified]
  have dp1: "dp_sum (weights ?m) ?fs1 (Fin 0) = (PInf, weights ?m)"
    unfolding w by (simp add: dd_get_def round_double_exact round_double_PInf big)
  have dp2: "dp_sum (weights ?m) ?fs2 (Fin 0) = (Fin 0, weights ?m)"
    unfolding w by (simp add: dd_get_def round_double_exact big)
  have "halflife ?m ?fs1 (Fin 2) = Inr (hclip PInf, ?m\<lparr>weights := weights ?m\<rparr>)"
    by (rule halflife_step[OF dp1]) (simp add: py_pow_two)
  then have h1: "halflife ?m ?fs1 (Fin 2) = Inr (Fin 274, ?m)"
    by (simp add: hclip_PInf)
  have "halflife ?m ?fs2 (Fin 2) = Inr (hclip (Fin 1), ?m\<lparr>weights := weights ?m\<rparr>)"
    by (rule halflife_step[OF dp2]) (rule py_pow_two_zero)
  then have h2: "halflife ?m ?fs2 (Fin 2) = Inr (Fin 1, ?m)"
    by (simp add: hclip_one)
  have p1: "predict ?m ?fs1 (Fin 0) (Fin 2) = Inr ((round_double 0.9999, Fin 274), ?m)"
    by (rule predict_zero_elapsed[OF h1]) simp
  have p2: "predict ?m ?fs2 (Fin 0) (Fin 2) = Inr ((round_double 0.9999, Fin 1), ?m)"
    by (rule predict_zero_elapsed[OF h2]) simp
  have a: "mset ?fs2 = mset ?fs1" by (simp add: add_mset_commute)
  have b: "predict ?m ?fs1 (Fin 0) (Fin 2) \<noteq> predict ?m ?fs2 (Fin 0) (Fin 2)"
    unfolding p1 p2 by simp
  let ?v = "[''a'' \<mapsto> Fin (2 ^ 54), ''b'' \<mapsto> Fin 1, ''c'' \<mapsto> Fin (- (2 ^ 54))]"
  let ?n = "load_weights default_model ?v"
  let ?gs1 = "[(''a'', Fin 1), (''b'', Fin 1), (''c'', Fin 1)]"
  let ?gs2 = "[(''a'', Fin 1), (''c'', Fin 1), (''b'', Fin 1)]"
  have v: "weights ?n = ?v" by (simp add: load_weights_def)
  note mid = in_range_power[of 54, simplified]
  note lost = round_double_example[simplified]
  have dq1: "dp_sum (weights ?n) ?gs1 (Fin 0) = (Fin 0, weights ?n)"
    unfolding v by (simp add: dd_get_def round_double_exact mid lost)
  have dq2: "dp_sum (weights ?n) ?gs2 (Fin 0) = (Fin 1, weights ?n)"
    unfolding v by (simp add: dd_get_def round_double_exact mid)
  have "halflife ?n ?gs1 (Fin 2) = Inr (hclip (Fin 1), ?n\<lparr>weights := weights ?n\<rparr>)"
    by (rule halflife_step[OF dq1]) (rule py_pow_two_zero)
  then have g1: "halflife ?n ?gs1 (Fin 2) = Inr (Fin 1, ?n)"
    by (simp add: hclip_one)
  have "halflife ?n ?gs2 (Fin 2) = Inr (hclip (Fin 2), ?n\<lparr>weights := weights ?n\<rparr>)"
    by (rule halflife_step[OF dq2]) (rule py_pow_two_one)
  then have g2: "halflife ?n ?gs2 (Fin 2) = Inr (Fin 2, ?n)"
    by (simp add: hclip_two)
  have q1: "predict ?n ?gs1 (Fin 0) (Fin 2) = Inr ((round_double 0.9999, Fin 1), ?n)"
    by (rule predict_zero_elapsed[OF g1]) simp
  have q2: "predict ?n ?gs2 (Fin 0) (Fin 2) = Inr ((round_double 0.9999, Fin 2), ?n)"
    by (rule predict_zero_elapsed[OF g2]) simp
  have c: "mset ?gs2 = mset ?gs1" by (simp add: add_mset_commute)
  have d: "predict ?n ?gs1 (Fin 0) (Fin 2) \<noteq> predict ?n ?gs2 (Fin 0) (Fin 2)"
    unfolding q1 q2 by simp
  show ?thesis using a b c d by blast
qed

text \<open>
  C9, amended. The order of the pairs reaches the result of \<open>predict\<close> only through the
  float sum of the products, taken from left to right. Swapping the two pairs of a
  two-element vector never changes the result. For a vector of any length and any
  permutation of it, \<open>predict\<close> returns the same pair (and leaves the same model) in
  both orders whenever every addition of the sum is exact in both: each product is
  finite and each running total is a double, so that nothing is rounded and nothing
  overflows.
\<close>

theorem predict_order_exact:
  "predict m [(k1, x1), (k2, x2)] d base = predict m [(k2, x2), (k1, x1)] d base
   \<and> (mset fs = mset fs' \<and> exact_sums (weights m) fs 0 \<and> exact_sums (weights m) fs' 0
      \<longrightarrow> predict m fs d base = predict m fs' d base)"
proof
  show "predict m [(k1, x1), (k2, x2)] d base = predict m [(k2, x2), (k1, x1)] d base"
    by (rule predict_cong) (rule dp_sum_swap)
next
  show "mset fs = mset fs' \<and> exact_sums (weights m) fs 0 \<and> exact_sums (weights m) fs' 0
      \<longrightarrow> predict m fs d base = predict m fs' d base"
    using predict_exact_sums[of fs fs' m d base] by blast
qed

lemma three_weights_half_life:
  "halflife (load_weights default_model [''a'' \<mapsto> Fin 1, ''b'' \<mapsto> Fin 2, ''c'' \<mapsto> Fin 4])
       [(''a'', Fin 3), (''b'', Fin 1), (''c'', Fin (1 / 2))] (Fin 2)
     = Inr (Fin 128,
            load_weights default_model [''a'' \<mapsto> Fin 1, ''b'' \<mapsto> Fin 2, ''c'' \<mapsto> Fin 4])"
proof -
  let ?w = "[''a'' \<mapsto> Fin 1, ''b'' \<mapsto> Fin 2, ''c'' \<mapsto> Fin 4]"
  let ?m = "load_weights default_model ?w"
  let ?fs = "[(''a'', Fin 3), (''b'', Fin 1), (''c'', Fin (1 / 2))]"
  have w: "weights ?m = ?w" by (simp add: load_weights_def)
  have dp: "dp_sum (weights ?m) ?fs (Fin 0) = (Fin 7, weights ?m)"
    unfolding w by (simp add: dd_get_def round_double_exact)
  have pw: "py_pow (Fin 2) (Fin 7) = Inr (Fin 128)"
    using py_pow_two_exact[of 7] by simp
  have hc: "hclip (Fin 128) = Fin 128" by (rule hclip_inside) simp_all
  have "halflife ?m ?fs (Fin 2) = Inr (hclip (Fin 128), ?m\<lparr>weights := weights ?m\<rparr>)"
    by (rule halflife_step[OF dp pw])
  then show ?thesis by (simp add: hc)
qed

theorem predict_order_exact_witness:
  "mset [(''a'', Fin 3), (''b'', Fin 1), (''c'', Fin (1 / 2))]
     = mset [(''c'', Fin (1 / 2)), (''a'', Fin 3), (''b'', Fin 1)]
   \<and> exact_sums
        (weights (load_weights default_model [''a'' \<mapsto> Fin 1, ''b'' \<mapsto> Fin 2, ''c'' \<mapsto> Fin 4]))
        [(''a'', Fin 3), (''b'', Fin 1), (''c'', Fin (1 / 2))] 0
   \<and> exact_sums
        (weights (load_weights default_model [''a'' \<mapsto> Fin 1, ''b'' \<mapsto> Fin 2, ''c'' \<mapsto> Fin 4]))
        [(''c'', Fin (1 / 2)), (''a'', Fin 3), (''b'', Fin 1)] 0
   \<and> predict (load_weights default_model [''a'' \<mapsto> Fin 1, ''b'' \<mapsto> Fin 2, ''c'' \<mapsto> Fin 4])
        [(''c'', Fin (1 / 2)), (''a'', Fin 3), (''b'', Fin 1)] (Fin 128) (Fin 2)
     = predict (load_weights default_model [''a'' \<mapsto> Fin 1, ''b'' \<mapsto> Fin 2, ''c'' \<mapsto> Fin 4])
        [(''a'', Fin 3), (''b'', Fin 1), (''c'', Fin (1 / 2))] (Fin 128) (Fin 2)
   \<and> predict (load_weights default_model [''a'' \<mapsto> Fin 1, ''b'' \<mapsto> Fin 2, ''c'' \<mapsto> Fin 4])
        [(''a'', Fin 3), (''b'', Fin 1), (''c'', Fin (1 / 2))] (Fin 128) (Fin 2)
     = Inr ((Fin (1 / 2), Fin 128),
            load_weights default_model [''a'' \<mapsto> Fin 1, ''b'' \<mapsto> Fin 2, ''c'' \<mapsto> Fin 4])"
proof -
  let ?w = "[''a'' \<mapsto> Fin 1, ''b'' \<mapsto> Fin 2, ''c'' \<mapsto> Fin 4]"
  let ?m = "load_weights default_model ?w"
  let ?fs = "[(''a'', Fin 3), (''b'', Fin 1), (''c'', Fin (1 / 2))]"
  let ?fs' = "[(''c'', Fin (1 / 2)), (''a'', Fin 3), (''b'', Fin 1)]"
  have w: "weights ?m = ?w" by (simp add: load_weights_def)
  have a: "mset ?fs = mset ?fs'" by (simp add: add_mset_commute)
  have b: "exact_sums (weights ?m) ?fs 0"
    unfolding w by (simp add: get_or_def round_double_exact)
  have c: "exact_sums (weights ?m) ?fs' 0"
    unfolding w by (simp add: get_or_def round_double_exact)
  have dv: "py_div (- Fin 128) (Fin 128) = Inr (Fin (- 1))"
    by (simp add: py_div_def round_double_exact)
  have p: "predict ?m ?fs (Fin 128) (Fin 2) = Inr ((Fin (1 / 2), Fin 128), ?m)"
    using predict_step[OF three_weights_half_life dv py_pow_two_minus_one]
    by (simp only: pclip_half)
  have "predict ?m ?fs (Fin 128) (Fin 2) = predict ?m ?fs' (Fin 128) (Fin 2)"
    using a b c predict_order_exact[of ?m "''a''" "Fin 3" "''b''" "Fin 1" "Fin 128" "Fin 2" ?fs ?fs']
    by blast
  then show ?thesis using a b c p by simp
qed

section \<open>Import and export\<close>

text \<open>
  C7. Exporting the weights and importing what was exported gives back the same
  model, so every later \<open>predict\<close> returns exactly what it would have returned without
  the round trip.
\<close>

theorem export_import_roundtrip:
  "load_weights m (get_weights m) = m
   \<and> predict (load_weights m (get_weights m)) fs d base = predict m fs d base"
  by (simp add: load_weights_def get_weights_def)

text \<open>
  C8. After \<open>load_weights m w\<close> every name of \<open>w\<close> has the weight \<open>w\<close> gives it, every
  other name reads as 0.0 whatever the model held for it before, and the count
  dictionary is the one from before the call.
\<close>

theorem load_weights_replaces:
  "weights (load_weights m w) = w
   \<and> weight_of (load_weights m w) k = (case w k of Some v \<Rightarrow> v | None \<Rightarrow> Fin 0)
   \<and> fcounts (load_weights m w) = fcounts m"
  by (simp add: load_weights_def weight_of_def get_or_def)

section \<open>Training\<close>

lemma same_settings_refl [simp]: "same_settings m m"
  by (simp add: same_settings_def)

lemma same_settings_trans: "same_settings m'' m' \<Longrightarrow> same_settings m' m \<Longrightarrow> same_settings m'' m"
  by (simp add: same_settings_def)

lemma default_model_settings:
  "omit_h_term default_model = False" "lrate default_model = round_double 0.001"
  "hlwt default_model = round_double 0.01" "l2wt default_model = round_double 0.1"
  "sigma default_model = Fin 1" "fcounts default_model = Map.empty"
  by (simp_all add: default_model_def init_model_def)

lemma counts_nonneg_default: "counts_nonneg default_model"
  by (simp add: counts_nonneg_def count_of_def get_or_def default_model_settings)

text \<open>The float of a positive count and its square root are at least one.\<close>

lemma root_cases:
  assumes "0 \<le> c"
  shows "py_sqrt (float_of_int (1 + c)) = Inr (float_sqrt (float_of_int (1 + c)))
         \<and> (float_sqrt (float_of_int (1 + c)) = PInf
              \<or> (\<exists>z. float_sqrt (float_of_int (1 + c)) = Fin z \<and> 1 \<le> z))"
proof -
  have "1 \<le> real_of_int (1 + c)" using assms by simp
  from round_double_above[OF in_range_zero_one(2) _ this]
  have "float_of_int (1 + c) = PInf \<or> (\<exists>y. float_of_int (1 + c) = Fin y \<and> 1 \<le> y)"
    by (simp add: float_of_int_def)
  then show ?thesis
  proof
    assume "float_of_int (1 + c) = PInf"
    then show ?thesis by simp
  next
    assume "\<exists>y. float_of_int (1 + c) = Fin y \<and> 1 \<le> y"
    then obtain y where y: "float_of_int (1 + c) = Fin y" "1 \<le> y" by blast
    have "1 \<le> sqrt y" using y(2) by simp
    from round_double_above[OF in_range_zero_one(2) _ this] show ?thesis
      using y by auto
  qed
qed

subsection \<open>One pass of the loop\<close>

text \<open>
  Where nothing raises (the observed recall is not \<open>-1\<close>, the count of the name is not
  negative, \<open>sigma ** 2\<close> returns and is not zero), the loop body does to the two
  mappings what the step of the specification does, and leaves the hyperparameters.
\<close>

lemma train_feature_spec:
  assumes "Fin 1 + r \<noteq> Fin 0" "0 \<le> count_of m k"
    "py_pow (sigma m) (Fin 2) = Inr s2" "s2 \<noteq> Fin 0"
  shows "\<exists>m'. train_feature r dlp dlh m (k, x) = Inr m'
           \<and> view m' = train_step_spec (omit_h_term m) (lrate m) (hlwt m) (l2wt m) s2
                          r dlp dlh (view m) (k, x)
           \<and> same_settings m' m"
proof -
  have c: "0 \<le> get_or 0 (fcounts m) k" using assms(2) by (simp add: count_of_def)
  from root_cases[OF c]
  have root: "py_sqrt (float_of_int (1 + get_or 0 (fcounts m) k))
                = Inr (float_sqrt (float_of_int (1 + get_or 0 (fcounts m) k)))"
    and nz: "float_sqrt (float_of_int (1 + get_or 0 (fcounts m) k)) \<noteq> Fin 0"
    by auto
  show ?thesis
    unfolding train_feature_def
    by (simp add: dd_get_eq and_then_def py_div_def assms root nz get_or_upd Let_def
        view_def weight_of_def count_of_def train_step_spec_def step_rate_def
        recall_term_def half_life_term_def shrink_term_def same_settings_def fun_eq_iff)
qed

lemma counts_nonneg_step:
  assumes "counts_nonneg m"
    "view m' = train_step_spec omit lr hlw l2 s2 r dlp dlh (view m) (k, x)"
  shows "counts_nonneg m'"
proof -
  have "count_of m' = (count_of m)(k := count_of m k + 1)"
    using assms(2) by (simp add: view_def train_step_spec_def Let_def)
  then show ?thesis using assms(1) by (simp add: counts_nonneg_def)
qed

lemma train_loop_spec:
  assumes "Fin 1 + r \<noteq> Fin 0" "counts_nonneg m"
    "py_pow (sigma m) (Fin 2) = Inr s2" "s2 \<noteq> Fin 0"
  shows "\<exists>m'. train_loop r dlp dlh m fs = Inr m'
           \<and> view m' = foldl (train_step_spec (omit_h_term m) (lrate m) (hlwt m) (l2wt m) s2
                                r dlp dlh) (view m) fs
           \<and> same_settings m' m"
  using assms(2,3)
proof (induction fs arbitrary: m)
  case Nil
  show ?case by simp
next
  case (Cons kx fs)
  obtain k x where kx: "kx = (k, x)" by (cases kx)
  have "0 \<le> count_of m k" using Cons.prems(1) by (simp add: counts_nonneg_def)
  from train_feature_spec[OF assms(1) this Cons.prems(2) assms(4), of dlp dlh x]
  obtain m1 where m1: "train_feature r dlp dlh m (k, x) = Inr m1"
    "view m1 = train_step_spec (omit_h_term m) (lrate m) (hlwt m) (l2wt m) s2
                 r dlp dlh (view m) (k, x)"
    "same_settings m1 m"
    by blast
  have c1: "counts_nonneg m1" using counts_nonneg_step[OF Cons.prems(1) m1(2)] .
  have s1: "py_pow (sigma m1) (Fin 2) = Inr s2"
    using m1(3) Cons.prems(2) by (simp add: same_settings_def)
  from Cons.IH[OF c1 s1] obtain m' where m': "train_loop r dlp dlh m1 fs = Inr m'"
    "view m' = foldl (train_step_spec (omit_h_term m1) (lrate m1) (hlwt m1) (l2wt m1) s2
                        r dlp dlh) (view m1) fs"
    "same_settings m' m1"
    by blast
  have "train_loop r dlp dlh m (kx # fs) = Inr m'"
    by (simp add: kx m1(1) m'(1) and_then_def)
  moreover have "view m' = foldl (train_step_spec (omit_h_term m) (lrate m) (hlwt m) (l2wt m) s2
                                r dlp dlh) (view m) (kx # fs)"
    using m'(2) m1(2,3) by (simp add: kx same_settings_def)
  moreover have "same_settings m' m" using same_settings_trans[OF m'(3) m1(3)] .
  ultimately show ?case by blast
qed

subsection \<open>The whole update\<close>

lemma predict_result:
  assumes "predict m fs d base = Inr ((p, h), m1)"
  shows "halflife m fs base = Inr (h, m1)"
  using assms unfolding predict_def and_then_def
  by (auto split: sum.splits prod.splits)

text \<open>The prediction changes nothing that a read with default sees.\<close>

lemma view_after_halflife:
  assumes "halflife m fs base = Inr (h, m1)"
  shows "view m1 = view m \<and> same_settings m1 m \<and> fcounts m1 = fcounts m"
  using halflife_result[OF assms]
  by (simp add: view_def weight_of_def count_of_def dp_sum_eq get_or_touched same_settings_def
      fun_eq_iff)

lemma train_update_spec:
  assumes "predict m fs d (Fin 2) = Inr ((p, h), m1)"
    "resolve_half_life d r ah h = Inr a"
    "Fin 1 + r \<noteq> Fin 0" "counts_nonneg m"
    "py_pow (sigma m) (Fin 2) = Inr s2" "s2 \<noteq> Fin 0"
  shows "\<exists>m'. train_update m fs d r ah = Inr m'
           \<and> view m' = foldl (train_step_spec (omit_h_term m) (lrate m) (hlwt m) (l2wt m) s2 r
                               (Fin 2 * (p - r) * (LN2 * LN2) * p * (d / h))
                               (Fin 2 * (h - a) * LN2 * h)) (view m) fs
           \<and> same_settings m' m"
proof -
  let ?dlp = "Fin 2 * (p - r) * (LN2 * LN2) * p * (d / h)"
  let ?dlh = "Fin 2 * (h - a) * LN2 * h"
  have hl: "halflife m fs (Fin 2) = Inr (h, m1)" using predict_result[OF assms(1)] .
  have v: "view m1 = view m" "same_settings m1 m" "fcounts m1 = fcounts m"
    using view_after_halflife[OF hl] by blast+
  have "h \<noteq> Fin 0" using halflife_result[OF hl] by auto
  then have dv: "py_div d h = Inr (d / h)" by (simp add: py_div_def)
  have c1: "counts_nonneg m1" using assms(4) v(3) by (simp add: counts_nonneg_def count_of_def)
  have s1: "py_pow (sigma m1) (Fin 2) = Inr s2" using assms(5) v(2) by (simp add: same_settings_def)
  from train_loop_spec[OF assms(3) c1 s1 assms(6), of ?dlp ?dlh fs]
  obtain m' where m': "train_loop r ?dlp ?dlh m1 fs = Inr m'"
    "view m' = foldl (train_step_spec (omit_h_term m1) (lrate m1) (hlwt m1) (l2wt m1) s2 r
                        ?dlp ?dlh) (view m1) fs"
    "same_settings m' m1"
    by blast
  have "train_update m fs d r ah = Inr m'"
    unfolding train_update_def Let_def and_then_def
    by (simp only: assms(1,2) dv m'(1) sum.case prod.case)
  moreover have "view m' = foldl (train_step_spec (omit_h_term m) (lrate m) (hlwt m) (l2wt m) s2 r
                               ?dlp ?dlh) (view m) fs"
    using m'(2) v by (simp add: same_settings_def)
  moreover have "same_settings m' m" using same_settings_trans[OF m'(3) v(2)] .
  ultimately show ?thesis by blast
qed

text \<open>
  C1. With \<open>(p, h)\<close> the prediction made before any update and \<open>a\<close> the observed (or
  estimated) half-life, \<open>train_update\<close> does to the weights and counts, pair by pair in
  the order of the vector, what the step of the specification does: the rate from the
  count of the name, the recall term, the half-life term unless it is omitted, the L2
  term on the weight that these two leave, then the count plus one; with
  \<open>dlp = 2 (p - actualRecall) ln(2)^2 p (elapsedDays / h)\<close> and
  \<open>dlh = 2 (h - a) ln(2) h\<close>. The hypotheses say that nothing raises on the way.
\<close>

theorem train_update_sequence:
  assumes "predict m fs d (Fin 2) = Inr ((p, h), m1)"
    "resolve_half_life d r ah h = Inr a"
    "Fin 1 + r \<noteq> Fin 0" "counts_nonneg m"
    "py_pow (sigma m) (Fin 2) = Inr sigma_sq" "sigma_sq \<noteq> Fin 0"
  shows "\<exists>m'. train_update m fs d r ah = Inr m'
           \<and> view m' = foldl (train_step_spec (omit_h_term m) (lrate m) (hlwt m) (l2wt m)
                                sigma_sq r
                                (Fin 2 * (p - r) * (LN2 * LN2) * p * (d / h))
                                (Fin 2 * (h - a) * LN2 * h)) (view m) fs"
  using train_update_spec[OF assms] by blast


theorem train_update_sequence_witness:
  "predict default_model [(''bias'', Fin 1)] (Fin 1) (Fin 2)
     = Inr ((Fin (1 / 2), Fin 1), default_model\<lparr>weights := [''bias'' \<mapsto> Fin 0]\<rparr>)
   \<and> resolve_half_life (Fin 1) (round_double 0.9) (Some (Fin 2)) (Fin 1) = Inr (Fin 2)
   \<and> Fin 1 + round_double 0.9 \<noteq> Fin 0 \<and> counts_nonneg default_model
   \<and> py_pow (sigma default_model) (Fin 2) = Inr (Fin 1) \<and> Fin 1 \<noteq> Fin 0
   \<and> (\<exists>m'. train_update default_model [(''bias'', Fin 1)] (Fin 1) (round_double 0.9)
              (Some (Fin 2)) = Inr m'
           \<and> view m' = foldl (train_step_spec (omit_h_term default_model) (lrate default_model)
                                (hlwt default_model) (l2wt default_model) (Fin 1)
                                (round_double 0.9)
                                (Fin 2 * (Fin (1 / 2) - round_double 0.9) * (LN2 * LN2) * Fin (1 / 2)
                                   * (Fin 1 / Fin 1))
                                (Fin 2 * (Fin 1 - Fin 2) * LN2 * Fin 1))
                         (view default_model) [(''bias'', Fin 1)])"
proof -
  have a: "resolve_half_life (Fin 1) (round_double 0.9) (Some (Fin 2)) (Fin 1) = Inr (Fin 2)"
    by (simp add: resolve_half_life_def)
  obtain y where y: "round_double 0.9 = Fin y" "0 \<le> y"
    using literal_between[of "0.9"] by auto
  have b: "Fin 1 + round_double 0.9 \<noteq> Fin 0"
    unfolding y(1) using y(2) by (rule one_plus_nonzero)
  have c: "py_pow (sigma default_model) (Fin 2) = Inr (Fin 1)"
    by (simp add: default_model_settings py_pow_one_two)
  have d: "Fin 1 \<noteq> Fin 0" by simp
  show ?thesis
    using predict_default_one_feature[of "''bias''"] a b counts_nonneg_default c d
      train_update_sequence[OF predict_default_one_feature a b counts_nonneg_default c d]
    by blast
qed

subsection \<open>Models without weights\<close>

lemma dp_sum_no_weights:
  assumes "finite_values fs"
  shows "dp_sum Map.empty fs (Fin 0) = (Fin 0, touched Map.empty (Fin 0) (fst ` set fs))"
proof -
  have "foldl (\<lambda>a (k, x). a + get_or (Fin 0) Map.empty k * x) (Fin 0) fs = Fin 0"
    using assms
  proof (induction fs)
    case Nil
    show ?case by simp
  next
    case (Cons a fs)
    obtain k x where a: "a = (k, x)" by (cases a)
    obtain xv where x: "x = Fin xv" using Cons.prems by (cases x) (simp_all add: a finite_values_def)
    have "finite_values fs" using Cons.prems by (simp add: finite_values_def)
    from Cons.IH[OF this] show ?case by (simp add: a x get_or_def)
  qed
  then show ?thesis by (simp add: dp_sum_eq)
qed

lemma halflife_no_weights:
  assumes "weights m = Map.empty" "finite_values fs"
  shows "halflife m fs (Fin 2)
           = Inr (Fin 1, m\<lparr>weights := touched Map.empty (Fin 0) (fst ` set fs)\<rparr>)"
  using halflife_step[of m fs "Fin 0" "touched Map.empty (Fin 0) (fst ` set fs)" "Fin 2" "Fin 1"]
    dp_sum_no_weights[OF assms(2)]
  by (simp add: assms(1) py_pow_two_zero hclip_one)


lemma predict_no_weights_zero_elapsed:
  assumes "weights m = Map.empty" "finite_values fs"
  shows "predict m fs (Fin 0) (Fin 2)
           = Inr ((round_double 0.9999, Fin 1),
                  m\<lparr>weights := touched Map.empty (Fin 0) (fst ` set fs)\<rparr>)"
  by (rule predict_zero_elapsed[OF halflife_no_weights[OF assms]]) simp

lemma predict_no_weights_one_day:
  assumes "weights m = Map.empty" "finite_values fs"
  shows "predict m fs (Fin 1) (Fin 2)
           = Inr ((Fin (1 / 2), Fin 1), m\<lparr>weights := touched Map.empty (Fin 0) (fst ` set fs)\<rparr>)"
  using predict_step[OF halflife_no_weights[OF assms] divide_minus_one py_pow_two_minus_one]
  by (simp only: pclip_half)

lemma weights_in_range_default: "weights_in_range default_model"
  by (simp add: weights_in_range_def weight_of_def get_or_def default_model_weights)

lemma settings_in_range_default: "settings_in_range default_model"
proof -
  obtain lr where lr: "round_double 0.001 = Fin lr" "0 \<le> lr" "lr \<le> 1"
    using literal_between[of "0.001"] by auto
  obtain hl where hl: "round_double 0.01 = Fin hl" "0 \<le> hl" "hl \<le> 1"
    using literal_between[of "0.01"] by auto
  have "in_range (Fin lr)" using in_range_round_double[of "0.001"] by (simp only: lr(1))
  moreover have "\<bar>lr * hl\<bar> \<le> FLOAT_MAX"
  proof -
    have "lr * hl \<le> 1 * 1" using lr(2,3) hl(2,3) by (intro mult_mono) simp_all
    then show ?thesis using lr(2) hl(2) FLOAT_MAX_pos(2) by (simp add: abs_mult)
  qed
  ultimately show ?thesis
    unfolding settings_in_range_def default_model_settings lr(1) hl(1) by blast
qed

lemma sigma_default: "py_pow (sigma default_model) (Fin 2) = Inr (Fin 1)"
  by (simp add: default_model_settings py_pow_one_two)

lemma unit_model_settings:
  "omit_h_term unit_model = False" "lrate unit_model = Fin 1"
  "hlwt unit_model = Fin 1" "l2wt unit_model = Fin 1" "sigma unit_model = Fin 1"
  "fcounts unit_model = Map.empty" "weights unit_model = Map.empty"
  by (simp_all add: unit_model_def init_model_def)

lemma counts_nonneg_unit: "counts_nonneg unit_model"
  by (simp add: counts_nonneg_def count_of_def get_or_def unit_model_settings)

lemma returned_value:
  assumes "\<exists>m'. r = Inr m' \<and> f m' = v"
  shows "map_sum id f r = Inr v"
  using assms by auto


subsection \<open>A square of sigma that underflows\<close>

text \<open>With \<open>sigma = 2^-600\<close> the square \<open>sigma ** 2\<close> underflows to \<open>0.0\<close> and the division of
  the L2 term raises: the statements on \<open>train_update\<close> need their condition of a
  non-zero square.\<close>

lemma train_feature_zero_sigma:
  assumes "Fin 1 + r \<noteq> Fin 0" "0 \<le> count_of m k" "py_pow (sigma m) (Fin 2) = Inr (Fin 0)"
  shows "train_feature r dlp dlh m (k, x) = Inl ZeroDivisionError"
proof -
  have c: "0 \<le> get_or 0 (fcounts m) k" using assms(2) by (simp add: count_of_def)
  from root_cases[OF c]
  have root: "py_sqrt (float_of_int (1 + get_or 0 (fcounts m) k))
                = Inr (float_sqrt (float_of_int (1 + get_or 0 (fcounts m) k)))"
    and nz: "float_sqrt (float_of_int (1 + get_or 0 (fcounts m) k)) \<noteq> Fin 0"
    by auto
  show ?thesis
    unfolding train_feature_def
    by (simp add: dd_get_eq and_then_def py_div_def assms root nz get_or_upd Let_def)
qed

lemma train_update_zero_sigma:
  "train_update (unit_model\<lparr>sigma := Fin (2 powr (- 600))\<rparr>) [(''a'', Fin 1)] (Fin 0) (Fin 0)
      (Some (Fin 2)) = Inl ZeroDivisionError"
proof -
  let ?m = "unit_model\<lparr>sigma := Fin (2 powr (- 600))\<rparr>"
  let ?m1 = "?m\<lparr>weights := touched Map.empty (Fin 0) (fst ` set [(''a'', Fin 1)])\<rparr>"
  have f: "finite_values [(''a'', Fin 1)]" by (simp add: finite_values_def)
  have w: "weights ?m = Map.empty" by (simp add: unit_model_settings)
  have p: "predict ?m [(''a'', Fin 1)] (Fin 0) (Fin 2) = Inr ((round_double 0.9999, Fin 1), ?m1)"
    by (rule predict_no_weights_zero_elapsed[OF w f])
  have a: "resolve_half_life (Fin 0) (Fin 0) (Some (Fin 2)) (Fin 1) = Inr (Fin 2)"
    by (simp add: resolve_half_life_def)
  have dv: "py_div (Fin 0) (Fin 1) = Inr (Fin 0 / Fin 1)" by (simp add: py_div_def)
  have b: "Fin 1 + Fin 0 \<noteq> Fin 0" by (rule one_plus_nonzero) simp
  have c: "0 \<le> count_of ?m1 ''a''"
    by (simp add: count_of_def get_or_def unit_model_settings)
  have s: "py_pow (sigma ?m1) (Fin 2) = Inr (Fin 0)" by (simp add: square_underflows)
  have "train_loop (Fin 0) dlp dlh ?m1 [(''a'', Fin 1)] = Inl ZeroDivisionError" for dlp dlh
    using train_feature_zero_sigma[OF b c s] by (simp add: and_then_def)
  then show ?thesis
    unfolding train_update_def Let_def and_then_def
    by (simp only: p a dv sum.case prod.case)
qed

subsection \<open>No time elapsed\<close>

lemma recall_cases:
  assumes "Fin 0 \<le> r" "r \<le> Fin 1"
  shows "\<exists>rr. r = Fin rr \<and> 0 \<le> rr \<and> rr \<le> 1"
  using assms by (cases r) (auto simp: less_eq_pyfloat_def)


lemma step_rate_finite:
  assumes "0 \<le> rr" "rr \<le> 1" "0 \<le> c" "in_range (Fin lr)"
  shows "\<exists>\<rho>. step_rate (Fin rr) (Fin lr) c = Fin \<rho> \<and> \<bar>\<rho>\<bar> \<le> \<bar>lr\<bar>"
proof -
  from round_double_between[of 1 2 "1 + rr"] assms(1,2) obtain s where
    s: "Fin 1 + Fin rr = Fin s" "1 \<le> s" "s \<le> 2" by auto
  have "1 / 2 \<le> 1 / s" "1 / s \<le> 1" using s(2,3) by (simp_all add: field_simps)
  from round_double_between[of "1 / 2" 1 "1 / s"] this s(2) obtain t where
    t: "Fin 1 / Fin s = Fin t" "1 / 2 \<le> t" "t \<le> 1" by auto
  have "\<bar>t\<bar> * \<bar>lr\<bar> \<le> 1 * \<bar>lr\<bar>" using t(2,3) by (intro mult_right_mono) simp_all
  then have "\<bar>t * lr\<bar> \<le> \<bar>lr\<bar>" by (simp add: abs_mult)
  from round_double_bounded[OF this] assms(4) obtain u where
    u: "Fin t * Fin lr = Fin u" "\<bar>u\<bar> \<le> \<bar>lr\<bar>" by auto
  have "in_range (Fin t * Fin lr)" by (rule in_range_times)
  then have "in_range (Fin u)" by (simp only: u(1))
  then have iu: "in_range (Fin \<bar>u\<bar>)" by simp
  from root_cases[OF assms(3)]
  have "float_sqrt (float_of_int (1 + c)) = PInf
        \<or> (\<exists>z. float_sqrt (float_of_int (1 + c)) = Fin z \<and> 1 \<le> z)" by blast
  then show ?thesis
  proof
    assume z: "float_sqrt (float_of_int (1 + c)) = PInf"
    show ?thesis unfolding step_rate_def s(1) t(1) u(1) z by simp
  next
    assume "\<exists>z. float_sqrt (float_of_int (1 + c)) = Fin z \<and> 1 \<le> z"
    then obtain z where z: "float_sqrt (float_of_int (1 + c)) = Fin z" "1 \<le> z" by blast
    have "\<bar>u / z\<bar> = \<bar>u\<bar> / z" using z(2) by simp
    also have "\<dots> \<le> \<bar>u\<bar> / 1" using z(2) by (intro divide_left_mono) simp_all
    finally have "\<bar>u / z\<bar> \<le> \<bar>u\<bar>" by simp
    from round_double_bounded[OF this iu] obtain \<rho> where
      r: "round_double (u / z) = Fin \<rho>" "\<bar>\<rho>\<bar> \<le> \<bar>u\<bar>" by blast
    have "step_rate (Fin rr) (Fin lr) c = Fin \<rho>"
      unfolding step_rate_def s(1) t(1) u(1) z(1) using z(2) r(1) by simp
    then show ?thesis using r(2) u(2) by auto
  qed
qed

lemma steps_agree:
  assumes "step_rate r lr (ct k) = Fin \<rho>" "finite_float x" "in_range (wt k)"
    "omit \<or> (\<exists>hl. hlw = Fin hl \<and> \<bar>\<rho> * hl\<bar> \<le> FLOAT_MAX)"
  shows "train_step_spec omit lr hlw l2 s2 r (Fin 0) (Fin 0) (wt, ct) (k, x)
           = shrink_step lr l2 s2 r (wt, ct) (k, x)"
proof -
  obtain xv where x: "x = Fin xv" using assms(2) by (cases x) simp_all
  have t1: "recall_term (Fin \<rho>) (Fin 0) x = Fin 0"
    by (simp add: recall_term_def x)
  have t2: "half_life_term (Fin \<rho>) hlw (Fin 0) x = Fin 0" if "\<not> omit"
  proof -
    from assms(4) that obtain hl where hl: "hlw = Fin hl" "\<bar>\<rho> * hl\<bar> \<le> FLOAT_MAX" by blast
    from round_double_finite[OF hl(2)] obtain c where "Fin \<rho> * Fin hl = Fin c" by auto
    then show ?thesis by (simp add: half_life_term_def x hl(1))
  qed
  show ?thesis
    using t2 by (auto simp: train_step_spec_def shrink_step_def Let_def assms(1) t1
        minus_zero[OF assms(3)])
qed

lemma fold_shrink:
  assumes "0 \<le> rr" "rr \<le> 1" "in_range (Fin lr)"
    "omit \<or> (\<exists>hl. hlw = Fin hl \<and> \<bar>lr * hl\<bar> \<le> FLOAT_MAX)"
    "\<forall>k. 0 \<le> ct k" "\<forall>k. in_range (wt k)" "finite_values fs"
  shows "foldl (train_step_spec omit (Fin lr) hlw l2 s2 (Fin rr) (Fin 0) (Fin 0)) (wt, ct) fs
           = foldl (shrink_step (Fin lr) l2 s2 (Fin rr)) (wt, ct) fs"
  using assms(5-7)
proof (induction fs arbitrary: wt ct)
  case Nil
  show ?case by simp
next
  case (Cons a fs)
  obtain k x where a: "a = (k, x)" by (cases a)
  have fx: "finite_float x" "finite_values fs"
    using Cons.prems(3) by (simp_all add: finite_values_def a)
  from step_rate_finite[OF assms(1,2) _ assms(3), of "ct k"] Cons.prems(1)
  obtain \<rho> where r: "step_rate (Fin rr) (Fin lr) (ct k) = Fin \<rho>" "\<bar>\<rho>\<bar> \<le> \<bar>lr\<bar>" by blast
  have h: "omit \<or> (\<exists>hl. hlw = Fin hl \<and> \<bar>\<rho> * hl\<bar> \<le> FLOAT_MAX)"
  proof (cases omit)
    case True
    then show ?thesis by simp
  next
    case False
    then obtain hl where hl: "hlw = Fin hl" "\<bar>lr * hl\<bar> \<le> FLOAT_MAX" using assms(4) by blast
    have "\<bar>\<rho>\<bar> * \<bar>hl\<bar> \<le> \<bar>lr\<bar> * \<bar>hl\<bar>" using r(2) by (intro mult_right_mono) simp_all
    then have "\<bar>\<rho> * hl\<bar> \<le> FLOAT_MAX" using hl(2) by (simp add: abs_mult)
    then show ?thesis using hl(1) by blast
  qed
  have wk: "in_range (wt k)" using Cons.prems(2) by simp
  have eq: "train_step_spec omit (Fin lr) hlw l2 s2 (Fin rr) (Fin 0) (Fin 0) (wt, ct) (k, x)
              = shrink_step (Fin lr) l2 s2 (Fin rr) (wt, ct) (k, x)"
    by (rule steps_agree[where ct = ct and k = k and wt = wt, OF r(1) fx(1) wk h])
  obtain wt' ct' where s: "shrink_step (Fin lr) l2 s2 (Fin rr) (wt, ct) (k, x) = (wt', ct')"
    by (cases "shrink_step (Fin lr) l2 s2 (Fin rr) (wt, ct) (k, x)")
  have c': "\<forall>k. 0 \<le> ct' k" using s Cons.prems(1) by (auto simp: shrink_step_def Let_def)
  have w': "\<forall>k. in_range (wt' k)"
    using s Cons.prems(2) by (auto simp: shrink_step_def Let_def)
  show ?case
    using Cons.IH[OF c' w' fx(2)] by (simp add: a eq s)
qed

text \<open>
  Where the predicted half-life is a number, the feature values are finite, the stored
  weights and the learning rate are floats and the product of the learning rate with
  the half-life weight is finite, an update with no time elapsed, no observed half-life
  and an observed recall in \<open>[0, 1]\<close> has both gradient coefficients zero and is the L2
  shrinkage alone: pair by pair, the weight \<open>w\<close> of the name becomes
  \<open>w - rate * l2wt * w / sigma^2\<close> and its count grows by one.
\<close>

lemma train_update_zero_elapsed_shrinks:
  assumes "Fin 0 \<le> r" "r \<le> Fin 1"
    "predict m fs (Fin 0) (Fin 2) = Inr ((p, h), m1)" "h \<noteq> NaN"
    "counts_nonneg m" "weights_in_range m" "settings_in_range m" "finite_values fs"
    "py_pow (sigma m) (Fin 2) = Inr sigma_sq" "sigma_sq \<noteq> Fin 0"
  shows "Fin 2 * (p - r) * (LN2 * LN2) * p * (Fin 0 / h) = Fin 0
       \<and> resolve_half_life (Fin 0) r None h = Inr h
       \<and> Fin 2 * (h - h) * LN2 * h = Fin 0
       \<and> (\<exists>m'. train_update m fs (Fin 0) r None = Inr m'
             \<and> view m' = foldl (shrink_step (lrate m) (l2wt m) sigma_sq r) (view m) fs)"
proof -
  obtain rr where r: "r = Fin rr" "0 \<le> rr" "rr \<le> 1"
    using recall_cases[OF assms(1,2)] by blast
  have hl: "halflife m fs (Fin 2) = Inr (h, m1)" using predict_result[OF assms(3)] .
  obtain hr where h: "h = Fin hr" "1 / 2 ^ 7 \<le> hr"
    using halflife_result[OF hl] assms(4) by auto
  have z: "Fin 0 \<le> Fin 0" by (simp add: less_eq_pyfloat_def)
  from predict_after_halflife[OF hl z] obtain p0 where
    p0: "p0 \<noteq> NaN" "predict m fs (Fin 0) (Fin 2) = Inr ((pclip p0, h), m1)"
    using assms(4) by blast
  have "p = pclip p0" using p0(2) assms(3) by simp
  then obtain pr where p: "p = Fin pr" "1 / 2 ^ 14 \<le> pr" "pr < 1"
    using pclip_number[OF p0(1)] by auto
  have dlp: "Fin 2 * (p - r) * (LN2 * LN2) * p * (Fin 0 / h) = Fin 0"
    unfolding p(1) r(1) h(1) using p(2,3) r(2,3) h(2) by (intro dlp_zero) auto
  have dlh: "Fin 2 * (h - h) * LN2 * h = Fin 0"
    unfolding h(1) by (rule dlh_zero)
  have res: "resolve_half_life (Fin 0) r None h = Inr h"
    by (simp add: resolve_half_life_def)
  have nz: "Fin 1 + r \<noteq> Fin 0"
    unfolding r(1) using r(2) by (rule one_plus_nonzero)
  from train_update_spec[OF assms(3) res nz assms(5,9,10)] obtain m' where
    m': "train_update m fs (Fin 0) r None = Inr m'"
        "view m' = foldl (train_step_spec (omit_h_term m) (lrate m) (hlwt m) (l2wt m) sigma_sq r
                            (Fin 0) (Fin 0)) (view m) fs"
    unfolding dlp dlh by blast
  from assms(7) obtain lr hlv where s: "lrate m = Fin lr" "hlwt m = Fin hlv"
    "in_range (Fin lr)" "\<bar>lr * hlv\<bar> \<le> FLOAT_MAX"
    unfolding settings_in_range_def by blast
  have "foldl (train_step_spec (omit_h_term m) (Fin lr) (hlwt m) (l2wt m) sigma_sq (Fin rr)
                 (Fin 0) (Fin 0)) (weight_of m, count_of m) fs
          = foldl (shrink_step (Fin lr) (l2wt m) sigma_sq (Fin rr)) (weight_of m, count_of m) fs"
    using assms(5,6,8) s(2,4)
    by (intro fold_shrink[OF r(2,3) s(3)]) (simp_all add: counts_nonneg_def weights_in_range_def)
  then have "view m' = foldl (shrink_step (lrate m) (l2wt m) sigma_sq r) (view m) fs"
    using m'(2) by (simp add: view_def s(1) r(1))
  then show ?thesis using dlp res dlh m'(1) by blast
qed

subsection \<open>Counts and weights after an update\<close>

lemma train_step_spec_eq:
  "train_step_spec omit lr hlw l2 s2 r dlp dlh (wt, ct) (k, x) =
     (wt(k := stepped_weight omit lr hlw l2 s2 r dlp dlh (wt k) (ct k) x), ct(k := ct k + 1))"
  by (simp add: train_step_spec_def stepped_weight_def Let_def)

lemma fold_steps_count:
  "snd (foldl (train_step_spec omit lr hlw l2 s2 r dlp dlh) (wt, ct) fs) k
     = ct k + int (count_list (map fst fs) k)"
proof (induction fs arbitrary: wt ct)
  case Nil
  show ?case by simp
next
  case (Cons a fs)
  obtain k' x where a: "a = (k', x)" by (cases a)
  show ?case by (simp add: a train_step_spec_eq Cons.IH)
qed

lemma fold_steps_untouched:
  "k \<notin> fst ` set fs \<Longrightarrow>
     fst (foldl (train_step_spec omit lr hlw l2 s2 r dlp dlh) (wt, ct) fs) k = wt k"
proof (induction fs arbitrary: wt ct)
  case Nil
  show ?case by simp
next
  case (Cons a fs)
  obtain k' x where a: "a = (k', x)" by (cases a)
  have "k' \<noteq> k" "k \<notin> fst ` set fs" using Cons.prems by (auto simp: a)
  then show ?case by (simp add: a train_step_spec_eq Cons.IH)
qed

lemma count_list_zero: "count_list xs k = 0 \<Longrightarrow> k \<notin> set xs"
  by (induction xs) (auto split: if_splits)

lemma fold_steps_once:
  assumes "(k, x) \<in> set fs" "count_list (map fst fs) k = 1"
  shows "fst (foldl (train_step_spec omit lr hlw l2 s2 r dlp dlh) (wt, ct) fs) k
           = stepped_weight omit lr hlw l2 s2 r dlp dlh (wt k) (ct k) x"
  using assms
proof (induction fs arbitrary: wt ct)
  case Nil
  then show ?case by simp
next
  case (Cons a fs)
  obtain k' x' where a: "a = (k', x')" by (cases a)
  show ?case
  proof (cases "k' = k")
    case True
    then have z: "count_list (map fst fs) k = 0" using Cons.prems(2) by (simp add: a)
    then have nk: "k \<notin> fst ` set fs" using count_list_zero[of "map fst fs" k] by simp
    then have "(k, x) \<notin> set fs" by force
    then have "x' = x" using Cons.prems(1) True by (simp add: a)
    then show ?thesis
      using True nk by (simp add: a train_step_spec_eq fold_steps_untouched)
  next
    case False
    then have "(k, x) \<in> set fs" "count_list (map fst fs) k = 1"
      using Cons.prems by (auto simp: a)
    from Cons.IH[OF this] show ?thesis using False by (simp add: a train_step_spec_eq)
  qed
qed

lemma stepped_weight_unchanged:
  assumes "in_range w"
    "recall_term (step_rate r lr c) dlp x = Fin 0"
    "omit \<or> half_life_term (step_rate r lr c) hlw dlh x = Fin 0"
    "shrink_term (step_rate r lr c) l2 w s2 = Fin 0"
  shows "stepped_weight omit lr hlw l2 s2 r dlp dlh w c x = w"
  using assms by (auto simp: stepped_weight_def Let_def minus_zero)

lemma train_update_effect:
  assumes "predict m fs d (Fin 2) = Inr ((p, h), m1)"
    "resolve_half_life d r ah h = Inr a"
    "Fin 1 + r \<noteq> Fin 0" "counts_nonneg m"
    "py_pow (sigma m) (Fin 2) = Inr sigma_sq" "sigma_sq \<noteq> Fin 0"
    "dlp = Fin 2 * (p - r) * (LN2 * LN2) * p * (d / h)"
    "dlh = Fin 2 * (h - a) * LN2 * h"
    "rate = step_rate r (lrate m) (count_of m k)"
  shows "\<exists>m'. train_update m fs d r ah = Inr m'
           \<and> count_of m' k = count_of m k + int (count_list (map fst fs) k)
           \<and> ((k, x) \<in> set fs \<and> count_list (map fst fs) k = 1 \<longrightarrow>
                weight_of m' k
                  = stepped_weight (omit_h_term m) (lrate m) (hlwt m) (l2wt m) sigma_sq r
                      dlp dlh (weight_of m k) (count_of m k) x
                \<and> (in_range (weight_of m k)
                   \<and> recall_term rate dlp x = Fin 0
                   \<and> (omit_h_term m \<or> half_life_term rate (hlwt m) dlh x = Fin 0)
                   \<and> shrink_term rate (l2wt m) (weight_of m k) sigma_sq = Fin 0
                   \<longrightarrow> weight_of m' k = weight_of m k))"
proof -
  let ?step = "train_step_spec (omit_h_term m) (lrate m) (hlwt m) (l2wt m) sigma_sq r dlp dlh"
  from train_update_spec[OF assms(1-6)] obtain m' where
    m': "train_update m fs d r ah = Inr m'"
        "view m' = foldl ?step (view m) fs"
    unfolding assms(7,8) by blast
  have w: "weight_of m' = fst (foldl ?step (weight_of m, count_of m) fs)"
    and c: "count_of m' = snd (foldl ?step (weight_of m, count_of m) fs)"
    using m'(2) by (simp_all add: view_def prod_eq_iff)
  have cnt: "count_of m' k = count_of m k + int (count_list (map fst fs) k)"
    unfolding c by (rule fold_steps_count)
  have wgt: "weight_of m' k
                  = stepped_weight (omit_h_term m) (lrate m) (hlwt m) (l2wt m) sigma_sq r
                      dlp dlh (weight_of m k) (count_of m k) x"
    if "(k, x) \<in> set fs" "count_list (map fst fs) k = 1"
    unfolding w using that by (rule fold_steps_once)
  have same: "weight_of m' k = weight_of m k"
    if "(k, x) \<in> set fs" "count_list (map fst fs) k = 1" "in_range (weight_of m k)"
       "recall_term rate dlp x = Fin 0"
       "omit_h_term m \<or> half_life_term rate (hlwt m) dlh x = Fin 0"
       "shrink_term rate (l2wt m) (weight_of m k) sigma_sq = Fin 0"
    using wgt[OF that(1,2)] stepped_weight_unchanged[OF that(3), of r "lrate m" "count_of m k"]
      that(4-6) unfolding assms(9) by simp
  show ?thesis using m'(1) cnt wgt same by blast
qed

text \<open>
  The claim C6 has the count of every name of the vector grow by exactly 1, also for a
  name that appears twice, and its weight change unless the three adjustment terms are
  all zero. Two runs of the code: the vector \<open>[(a, 1), (a, 1)]\<close> takes the count of
  \<open>a\<close> from 0 to 2; and on a model whose learning rate, L2 weight and sigma are 1, with
  no time elapsed and an observed half-life of 2 against a predicted 1, the half-life
  term is \<open>-2 ln 2\<close>, the L2 term undoes it, and the weight of \<open>a\<close> is 0 before and
  after.
\<close>


lemma twice_counts_two:
  "map_sum id (\<lambda>m'. count_of m' ''a'')
      (train_update default_model [(''a'', Fin 1), (''a'', Fin 1)] (Fin 1) (round_double 0.9)
         (Some (Fin 2)))
     = Inr (count_of default_model ''a'' + 2)"
proof -
  have f: "finite_values [(''a'', Fin 1), (''a'', Fin 1)]" by (simp add: finite_values_def)
  have a: "resolve_half_life (Fin 1) (round_double 0.9) (Some (Fin 2)) (Fin 1) = Inr (Fin 2)"
    by (simp add: resolve_half_life_def)
  obtain y where y: "round_double 0.9 = Fin y" "0 \<le> y"
    using literal_between[of "0.9"] by auto
  have b: "Fin 1 + round_double 0.9 \<noteq> Fin 0"
    unfolding y(1) using y(2) by (rule one_plus_nonzero)
  have n: "Fin 1 \<noteq> Fin 0" by simp
  from train_update_effect[OF predict_no_weights_one_day[OF default_model_weights f] a b
      counts_nonneg_default sigma_default n refl refl refl, of "''a''"]
  have "\<exists>m'. train_update default_model [(''a'', Fin 1), (''a'', Fin 1)] (Fin 1)
               (round_double 0.9) (Some (Fin 2)) = Inr m'
            \<and> count_of m' ''a'' = count_of default_model ''a'' + 2"
    by auto
  then show ?thesis by (rule returned_value)
qed

lemma unit_dlh:
  "\<exists>t. Fin 2 * (Fin 1 - Fin 2) * LN2 * Fin 1 = Fin t \<and> t \<le> - 1 \<and> in_range (Fin t)"
proof -
  obtain l where l: "LN2 = Fin l" "1 / 2 \<le> l" "l \<le> 1" using LN2_value by blast
  have 1: "Fin 1 - Fin 2 = Fin (- 1)" using fin_minus[of 1 2] by simp
  have 2: "Fin 2 * Fin (- 1) = Fin (- 2)" using fin_times[of 2 "- 1"] by simp
  from round_double_between[of "- 2" "- 1" "- 2 * l"] l(2,3) obtain t where
    t: "Fin (- 2) * Fin l = Fin t" "t \<le> - 1" by auto
  have i: "in_range (Fin t)" using in_range_times[of "Fin (- 2)" "Fin l"] by (simp only: t(1))
  have 4: "Fin t * Fin 1 = Fin t" using i by (rule times_one)
  show ?thesis unfolding l(1) using t(2) i by (simp only: 1 2 t(1) 4) blast
qed

lemma unit_rate: "step_rate (Fin 0) (Fin 1) 0 = Fin 1"
  by (simp add: step_rate_def round_double_exact)

lemma unit_half_life_term:
  "in_range (Fin t) \<Longrightarrow> half_life_term (Fin 1) (Fin 1) (Fin t) (Fin 1) = Fin t"
  by (simp add: half_life_term_def round_double_exact)

lemma unit_stepped_weight:
  assumes "in_range (Fin t)"
  shows "stepped_weight False (Fin 1) (Fin 1) (Fin 1) (Fin 1) (Fin 0) (Fin 0) (Fin t)
           (Fin 0) 0 (Fin 1) = Fin 0"
proof -
  have i: "in_range (Fin (- t))" using assms by simp
  have t1: "recall_term (Fin 1) (Fin 0) (Fin 1) = Fin 0" by (simp add: recall_term_def)
  have w1: "Fin 0 - Fin 0 = Fin 0" by simp
  have w2: "Fin 0 - Fin t = Fin (- t)" using zero_minus[of "Fin t"] assms by simp
  have t3: "shrink_term (Fin 1) (Fin 1) (Fin (- t)) (Fin 1) = Fin (- t)"
    using i by (simp add: shrink_term_def round_double_exact)
  have w3: "Fin (- t) - Fin (- t) = Fin 0" by (rule fin_self_minus)
  show ?thesis
    unfolding stepped_weight_def Let_def unit_rate
    by (simp only: t1 w1 unit_half_life_term[OF assms] w2 t3 w3 if_False)
qed

theorem train_update_counts_counterexample:
  "map_sum id (\<lambda>m'. count_of m' ''a'')
      (train_update default_model [(''a'', Fin 1), (''a'', Fin 1)] (Fin 1) (round_double 0.9)
         (Some (Fin 2)))
     = Inr (count_of default_model ''a'' + 2)
   \<and> map_sum id (\<lambda>m'. weight_of m' ''a'')
      (train_update unit_model [(''a'', Fin 1)] (Fin 0) (Fin 0) (Some (Fin 2)))
     = Inr (weight_of unit_model ''a'')
   \<and> predict unit_model [(''a'', Fin 1)] (Fin 0) (Fin 2)
     = Inr ((round_double 0.9999, Fin 1),
            unit_model\<lparr>weights := touched Map.empty (Fin 0) (fst ` set [(''a'', Fin 1)])\<rparr>)
   \<and> half_life_term (step_rate (Fin 0) (lrate unit_model) (count_of unit_model ''a''))
        (hlwt unit_model) (Fin 2 * (Fin 1 - Fin 2) * LN2 * Fin 1) (Fin 1) \<noteq> Fin 0"
proof -
  have f: "finite_values [(''a'', Fin 1)]" by (simp add: finite_values_def)
  have p: "predict unit_model [(''a'', Fin 1)] (Fin 0) (Fin 2)
     = Inr ((round_double 0.9999, Fin 1),
            unit_model\<lparr>weights := touched Map.empty (Fin 0) (fst ` set [(''a'', Fin 1)])\<rparr>)"
    by (rule predict_no_weights_zero_elapsed[OF unit_model_settings(7) f])
  have a: "resolve_half_life (Fin 0) (Fin 0) (Some (Fin 2)) (Fin 1) = Inr (Fin 2)"
    by (simp add: resolve_half_life_def)
  have b: "Fin 1 + Fin 0 \<noteq> Fin 0" by (rule one_plus_nonzero) simp
  have s: "py_pow (sigma unit_model) (Fin 2) = Inr (Fin 1)"
    by (simp add: unit_model_settings py_pow_one_two)
  have n: "Fin 1 \<noteq> Fin 0" by simp
  have c0: "count_of unit_model ''a'' = 0" "weight_of unit_model ''a'' = Fin 0"
    by (simp_all add: count_of_def weight_of_def get_or_def unit_model_settings)
  obtain hi where hi: "round_double 0.9999 = Fin hi" "1 / 2 \<le> hi" "hi < 1"
    using recall_ceiling by blast
  have dlp: "Fin 2 * (round_double 0.9999 - Fin 0) * (LN2 * LN2) * round_double 0.9999
               * (Fin 0 / Fin 1) = Fin 0"
    unfolding hi(1) using hi(2,3) by (intro dlp_zero) simp_all
  obtain t where t: "Fin 2 * (Fin 1 - Fin 2) * LN2 * Fin 1 = Fin t" "t \<le> - 1" "in_range (Fin t)"
    using unit_dlh by blast
  from train_update_effect[OF p a b counts_nonneg_unit s n refl refl refl,
      of "''a''" "Fin 1"]
  have "\<exists>m'. train_update unit_model [(''a'', Fin 1)] (Fin 0) (Fin 0) (Some (Fin 2)) = Inr m'
            \<and> weight_of m' ''a'' = weight_of unit_model ''a''"
    unfolding dlp t(1) unit_model_settings c0 by (auto simp: unit_stepped_weight[OF t(3)])
  then have w: "map_sum id (\<lambda>m'. weight_of m' ''a'')
      (train_update unit_model [(''a'', Fin 1)] (Fin 0) (Fin 0) (Some (Fin 2)))
     = Inr (weight_of unit_model ''a'')"
    by (rule returned_value)
  have "t \<noteq> 0" using t(2) by simp
  then have h: "half_life_term (step_rate (Fin 0) (lrate unit_model) (count_of unit_model ''a''))
        (hlwt unit_model) (Fin 2 * (Fin 1 - Fin 2) * LN2 * Fin 1) (Fin 1) \<noteq> Fin 0"
    unfolding t(1) unit_model_settings c0 unit_rate unit_half_life_term[OF t(3)] by simp
  show ?thesis using twice_counts_two w p h by blast
qed

text \<open>
  C6, amended. After a \<open>train_update\<close> call that returns, the count of a name has grown
  by the number of pairs of the vector that carry the name (by exactly 1 for a name
  that appears once). The weight of a name that appears once, in the pair
  \<open>(k, x)\<close>, is what one step makes of it: the old weight minus the recall term, minus
  the half-life term unless omitted, minus the L2 term; so it is unchanged when the
  three terms are zero. (It can also be unchanged when they are not.)
\<close>

theorem train_update_counts_and_weight:
  assumes "predict m fs d (Fin 2) = Inr ((p, h), m1)"
    "resolve_half_life d r ah h = Inr a"
    "Fin 1 + r \<noteq> Fin 0" "counts_nonneg m"
    "py_pow (sigma m) (Fin 2) = Inr sigma_sq" "sigma_sq \<noteq> Fin 0"
    "dlp = Fin 2 * (p - r) * (LN2 * LN2) * p * (d / h)"
    "dlh = Fin 2 * (h - a) * LN2 * h"
    "rate = step_rate r (lrate m) (count_of m k)"
  shows "\<exists>m'. train_update m fs d r ah = Inr m'
           \<and> count_of m' k = count_of m k + int (count_list (map fst fs) k)
           \<and> ((k, x) \<in> set fs \<and> count_list (map fst fs) k = 1 \<longrightarrow>
                weight_of m' k
                  = stepped_weight (omit_h_term m) (lrate m) (hlwt m) (l2wt m) sigma_sq r
                      dlp dlh (weight_of m k) (count_of m k) x
                \<and> (in_range (weight_of m k)
                   \<and> recall_term rate dlp x = Fin 0
                   \<and> (omit_h_term m \<or> half_life_term rate (hlwt m) dlh x = Fin 0)
                   \<and> shrink_term rate (l2wt m) (weight_of m k) sigma_sq = Fin 0
                   \<longrightarrow> weight_of m' k = weight_of m k))"
  using train_update_effect[OF assms] .


theorem train_update_counts_and_weight_witness:
  "predict default_model [(''bias'', Fin 1)] (Fin 0) (Fin 2)
       = Inr ((round_double 0.9999, Fin 1),
              default_model\<lparr>weights := touched Map.empty (Fin 0) (fst ` set [(''bias'', Fin 1)])\<rparr>)
   \<and> resolve_half_life (Fin 0) (Fin (1 / 2)) (Some (Fin 1)) (Fin 1) = Inr (Fin 1)
   \<and> Fin 1 + Fin (1 / 2) \<noteq> Fin 0 \<and> counts_nonneg default_model
   \<and> py_pow (sigma default_model) (Fin 2) = Inr (Fin 1) \<and> Fin 1 \<noteq> Fin 0
   \<and> (''bias'', Fin 1) \<in> set [(''bias'', Fin 1)]
   \<and> count_list (map fst [(''bias'', Fin 1)]) ''bias'' = 1
   \<and> in_range (weight_of default_model ''bias'')
   \<and> (\<exists>m'. train_update default_model [(''bias'', Fin 1)] (Fin 0) (Fin (1 / 2)) (Some (Fin 1))
              = Inr m'
         \<and> count_of m' ''bias'' = count_of default_model ''bias'' + 1
         \<and> weight_of m' ''bias'' = weight_of default_model ''bias'')"
proof -
  have f: "finite_values [(''bias'', Fin 1)]" by (simp add: finite_values_def)
  have p: "predict default_model [(''bias'', Fin 1)] (Fin 0) (Fin 2)
       = Inr ((round_double 0.9999, Fin 1),
              default_model\<lparr>weights := touched Map.empty (Fin 0) (fst ` set [(''bias'', Fin 1)])\<rparr>)"
    by (rule predict_no_weights_zero_elapsed[OF default_model_weights f])
  have a: "resolve_half_life (Fin 0) (Fin (1 / 2)) (Some (Fin 1)) (Fin 1) = Inr (Fin 1)"
    by (simp add: resolve_half_life_def)
  have b: "Fin 1 + Fin (1 / 2) \<noteq> Fin 0" by (rule one_plus_nonzero) simp
  have n: "Fin 1 \<noteq> Fin 0" by simp
  have w0: "weight_of default_model ''bias'' = Fin 0" "count_of default_model ''bias'' = 0"
    by (simp_all add: weight_of_def count_of_def get_or_def default_model_weights
        default_model_settings)
  have ir: "in_range (weight_of default_model ''bias'')"
    using weights_in_range_default by (simp add: weights_in_range_def)
  obtain hi where hi: "round_double 0.9999 = Fin hi" "1 / 2 \<le> hi" "hi < 1"
    using recall_ceiling by blast
  have dlp: "Fin 2 * (round_double 0.9999 - Fin (1 / 2)) * (LN2 * LN2) * round_double 0.9999
               * (Fin 0 / Fin 1) = Fin 0"
    unfolding hi(1) using hi(2,3) by (intro dlp_zero) simp_all
  have dlh: "Fin 2 * (Fin 1 - Fin 1) * LN2 * Fin 1 = Fin 0" by (rule dlh_zero)
  obtain lr where lr: "round_double 0.001 = Fin lr" "0 \<le> lr" "lr \<le> 1"
    using literal_between[of "0.001"] by auto
  obtain hl where hl: "round_double 0.01 = Fin hl" "0 \<le> hl" "hl \<le> 1"
    using literal_between[of "0.01"] by auto
  obtain l2 where l2: "round_double 0.1 = Fin l2" "0 \<le> l2" "l2 \<le> 1"
    using literal_between[of "0.1"] by auto
  have il: "in_range (Fin lr)" using in_range_round_double[of "0.001"] by (simp only: lr(1))
  obtain \<rho> where r: "step_rate (Fin (1 / 2)) (Fin lr) 0 = Fin \<rho>" "\<bar>\<rho>\<bar> \<le> \<bar>lr\<bar>"
    using step_rate_finite[of "1 / 2" 0 lr] il by auto
  have r1: "\<bar>\<rho>\<bar> \<le> 1" using r(2) lr(2,3) by simp
  from times_bounded[of \<rho> 1 hl 1] r1 hl(2,3) obtain c1 where "Fin \<rho> * Fin hl = Fin c1"
    by auto
  then have c1: "round_double (\<rho> * hl) = Fin c1" by simp
  from times_bounded[of \<rho> 1 l2 1] r1 l2(2,3) obtain c2 where "Fin \<rho> * Fin l2 = Fin c2"
    by auto
  then have c2: "round_double (\<rho> * l2) = Fin c2" by simp
  have t: "recall_term (Fin \<rho>) (Fin 0) (Fin 1) = Fin 0"
    "half_life_term (Fin \<rho>) (Fin hl) (Fin 0) (Fin 1) = Fin 0"
    "shrink_term (Fin \<rho>) (Fin l2) (Fin 0) (Fin 1) = Fin 0"
    by (simp_all add: recall_term_def half_life_term_def shrink_term_def c1 c2)
  from train_update_counts_and_weight[OF p a b counts_nonneg_default sigma_default n refl refl refl,
      of "''bias''" "Fin 1"]
  have "\<exists>m'. train_update default_model [(''bias'', Fin 1)] (Fin 0) (Fin (1 / 2)) (Some (Fin 1))
              = Inr m'
         \<and> count_of m' ''bias'' = count_of default_model ''bias'' + 1
         \<and> weight_of m' ''bias'' = weight_of default_model ''bias''"
    unfolding dlp dlh default_model_settings w0 lr(1) hl(1) l2(1) r(1) using t by auto
  then show ?thesis using p a b counts_nonneg_default sigma_default n ir by simp
qed

subsection \<open>No time elapsed, and a dot product that is not a number\<close>

lemma predict_nan_weights:
  "predict (load_weights default_model [''a'' \<mapsto> Fin (2 ^ 600), ''b'' \<mapsto> Fin (- (2 ^ 600))])
       [(''a'', Fin (2 ^ 600)), (''b'', Fin (2 ^ 600))] d (Fin 2)
   = Inr ((NaN, NaN),
          load_weights default_model [''a'' \<mapsto> Fin (2 ^ 600), ''b'' \<mapsto> Fin (- (2 ^ 600))])"
proof -
  let ?w = "[''a'' \<mapsto> Fin (2 ^ 600), ''b'' \<mapsto> Fin (- (2 ^ 600))]"
  let ?m = "load_weights default_model ?w"
  have w: "weights ?m = ?w" by (simp add: load_weights_def)
  have dp: "dp_sum (weights ?m) [(''a'', Fin (2 ^ 600)), (''b'', Fin (2 ^ 600))] (Fin 0)
              = (NaN, weights ?m)"
    unfolding w by (simp add: dd_get_def round_double_PInf round_double_NInf)
  have "halflife ?m [(''a'', Fin (2 ^ 600)), (''b'', Fin (2 ^ 600))] (Fin 2)
          = Inr (hclip NaN, ?m\<lparr>weights := weights ?m\<rparr>)"
    by (rule halflife_step[OF dp]) (simp add: py_pow_two)
  then have h: "halflife ?m [(''a'', Fin (2 ^ 600)), (''b'', Fin (2 ^ 600))] (Fin 2)
          = Inr (NaN, ?m)"
    by simp
  have q: "py_div (- d) NaN = Inr NaN" by (cases d) (simp_all add: py_div_def)
  have "predict ?m [(''a'', Fin (2 ^ 600)), (''b'', Fin (2 ^ 600))] d (Fin 2)
          = Inr ((pclip NaN, NaN), ?m)"
    by (rule predict_step[OF h q]) (simp add: py_pow_two)
  then show ?thesis by simp
qed

lemma stepped_weight_NaN:
  "stepped_weight omit lr hlw l2 s2 r NaN dlh w c x = NaN"
  by (simp add: stepped_weight_def Let_def recall_term_def shrink_term_def)

text \<open>
  C10. The claim: for every feature vector and every observed recall in \<open>[0, 1]\<close>, with no
  time elapsed and no observed half-life, both gradient coefficients are zero and each
  touched weight is only multiplied by \<open>1 - rate * l2Weight / sigma^2\<close>. The code at an
  input where it is not so: with the weights \<open>2^600\<close> and \<open>-2^600\<close> and two feature
  values \<open>2^600\<close> the prediction is \<open>(NaN, NaN)\<close> (see C2), the fallback half-life is
  NaN, both coefficients are NaN, and \<open>train_update\<close> returns with both weights NaN.
\<close>

theorem train_update_nan_example:
  "map_sum id (\<lambda>m'. (weight_of m' ''a'', weight_of m' ''b''))
     (train_update
        (load_weights default_model [''a'' \<mapsto> Fin (2 ^ 600), ''b'' \<mapsto> Fin (- (2 ^ 600))])
        [(''a'', Fin (2 ^ 600)), (''b'', Fin (2 ^ 600))] (Fin 0) (Fin (1 / 2)) None)
   = Inr (NaN, NaN)"
proof -
  let ?w = "[''a'' \<mapsto> Fin (2 ^ 600), ''b'' \<mapsto> Fin (- (2 ^ 600))]"
  let ?m = "load_weights default_model ?w"
  let ?fs = "[(''a'', Fin (2 ^ 600)), (''b'', Fin (2 ^ 600))]"
  have res: "resolve_half_life (Fin 0) (Fin (1 / 2)) None NaN = Inr NaN"
    by (simp add: resolve_half_life_def)
  have nz: "Fin 1 + Fin (1 / 2) \<noteq> Fin 0" by (rule one_plus_nonzero) simp
  have cn: "counts_nonneg ?m"
    by (simp add: counts_nonneg_def count_of_def get_or_def load_weights_def
        default_model_settings)
  have sg: "py_pow (sigma ?m) (Fin 2) = Inr (Fin 1)"
    by (simp add: load_weights_def default_model_settings py_pow_one_two)
  have n: "Fin 1 \<noteq> Fin 0" by simp
  from train_update_effect[OF predict_nan_weights res nz cn sg n refl refl refl, of "''a''" "Fin (2 ^ 600)"]
    train_update_effect[OF predict_nan_weights res nz cn sg n refl refl refl, of "''b''" "Fin (2 ^ 600)"]
  have "\<exists>m'. train_update ?m ?fs (Fin 0) (Fin (1 / 2)) None = Inr m'
           \<and> (weight_of m' ''a'', weight_of m' ''b'') = (NaN, NaN)"
    by (auto simp: stepped_weight_NaN)
  then show ?thesis by (rule returned_value)
qed


subsection \<open>An observed recall of one\<close>

text \<open>
  C3. The claim: for every well-formed input, and in particular in the estimation
  branch at an observed recall of 1, \<open>train_update\<close> completes without raising. The
  code at such an input: one feature, one day elapsed, observed recall 1.0 and no
  observed half-life. The guard \<open>actual_recall > 0.0001 and delta_days > 0\<close> holds,
  \<open>math.log2(1.0)\<close> is \<open>0.0\<close>, and the division \<open>-delta_days / 0.0\<close> raises.
\<close>

theorem train_update_raises_example:
  "train_update default_model [(''bias'', Fin 1)] (Fin 1) (Fin 1) None = Inl ZeroDivisionError"
proof -
  obtain lo where lo: "round_double 0.0001 = Fin lo" "1 / 2 ^ 14 \<le> lo" "lo \<le> 1 / 2 ^ 13"
    using recall_floor by blast
  have "lo < 1" using lo(3) by simp
  then have "resolve_half_life (Fin 1) (Fin 1) None (Fin 1) = Inl ZeroDivisionError"
    unfolding resolve_half_life_def lo(1) by (simp add: and_then_def py_div_def)
  then show ?thesis
    unfolding train_update_def Let_def and_then_def
    by (simp only: predict_default_one_feature sum.case prod.case)
qed

end
